theory Spec2Isabelle
  imports
    Main
    "HOL-Library.List_Lexorder"
    "HOL-Library.Product_Lexorder"
    "HOL-Library.Multiset"
    "HOL-Library.FSet"
begin

section \<open>Python values used by the game engine\<close>

text \<open>
  A Python \<open>str\<close> is a sequence of Unicode code points; it is modelled as the list of
  its code points. Comparison of two such lists (\<open>List_Lexorder\<close>) is Python's
  comparison of strings. The literals of the sources are Korean and are written as
  their code points.
\<close>

type_synonym pystr = "nat list"

definition ascii :: "string \<Rightarrow> pystr" where
  "ascii s = map of_char s"

datatype py_error = IndexError | KeyError | ValueError | TypeError | AttributeError | UnicodeEncodeError

text \<open>The name of the human player, \<open>mafia_core.py\<close> lines 36, 83, 103, 149.\<close>

definition HUMAN :: pystr where
  "HUMAN = [0xB2F9, 0xC2E0]"

definition MAFIA :: pystr where
  "MAFIA = ascii ''MAFIA''"

definition CITIZEN :: pystr where
  "CITIZEN = ascii ''CITIZEN''"

definition CITIZEN_WIN :: pystr where
  "CITIZEN_WIN = ascii ''CITIZEN_WIN''"

definition MAFIA_WIN :: pystr where
  "MAFIA_WIN = ascii ''MAFIA_WIN''"

subsection \<open>Dictionaries\<close>

text \<open>
  A Python \<open>dict\<close> keeps its keys in insertion order, and the engine iterates over
  dictionaries, so a dictionary is an association list. \<open>d[k] = v\<close> overwrites the
  value of a key that is present, in place, and appends a new key at the end.
\<close>

type_synonym ('k, 'v) dict = "('k \<times> 'v) list"

fun dict_set :: "'k \<Rightarrow> 'v \<Rightarrow> ('k, 'v) dict \<Rightarrow> ('k, 'v) dict" where
  "dict_set k v [] = [(k, v)]"
| "dict_set k v ((k', v') # d) = (if k' = k then (k', v) # d else (k', v') # dict_set k v d)"

definition dict_get :: "('k, 'v) dict \<Rightarrow> 'k \<Rightarrow> 'v \<Rightarrow> 'v" where
  "dict_get d k dflt = (case map_of d k of None \<Rightarrow> dflt | Some v \<Rightarrow> v)"

definition dict_item :: "('k, 'v) dict \<Rightarrow> 'k \<Rightarrow> py_error + 'v" where
  "dict_item d k = (case map_of d k of None \<Rightarrow> Inl KeyError | Some v \<Rightarrow> Inr v)"

subsection \<open>Built-in operations\<close>

text \<open>\<open>max(xs)\<close> raises \<open>ValueError\<close> on an empty argument.\<close>

fun py_max :: "int list \<Rightarrow> py_error + int" where
  "py_max [] = Inl ValueError"
| "py_max (x # xs) = Inr (foldl max x xs)"

text \<open>\<open>xs[i:]\<close>: a negative start counts from the end and is clipped at the front.\<close>

definition slice_from :: "int \<Rightarrow> 'a list \<Rightarrow> 'a list" where
  "slice_from i xs =
     (if i < 0 then drop (nat (int (length xs) + i)) xs else drop (nat i) xs)"

text \<open>
  \<open>s.count(sub)\<close>: the number of non-overlapping occurrences of \<open>sub\<close> in \<open>s\<close>,
  found from the left; the empty string occurs \<open>len(s) + 1\<close> times.
\<close>

function str_count :: "pystr \<Rightarrow> pystr \<Rightarrow> nat" where
  "str_count s sub =
     (if sub = [] then length s + 1
      else if length s < length sub then 0
      else if take (length sub) s = sub then 1 + str_count (drop (length sub) s) sub
      else str_count (tl s) sub)"
  by pat_completeness auto
termination
proof (relation "measure (\<lambda>(s, sub). length s)")
  show "wf (measure (\<lambda>(s, sub). length s))"
    by simp
next
  fix s sub :: pystr
  assume "sub \<noteq> []" and "\<not> length s < length sub"
  then have "0 < length sub \<and> 0 < length s"
    by (cases sub; cases s) simp_all
  then show "((drop (length sub) s, sub), (s, sub)) \<in> measure (\<lambda>(s, sub). length s)"
    by simp
next
  fix s sub :: pystr
  assume "sub \<noteq> []" and "\<not> length s < length sub"
  then have "0 < length s"
    by (cases sub; cases s) simp_all
  then show "((tl s, sub), (s, sub)) \<in> measure (\<lambda>(s, sub). length s)"
    by simp
qed

declare str_count.simps [simp del]

text \<open>\<open>sub in s\<close> on strings: \<open>sub\<close> occurs in \<open>s\<close> as a contiguous piece.\<close>

fun str_contains :: "pystr \<Rightarrow> pystr \<Rightarrow> bool" where
  "str_contains [] sub = (sub = [])"
| "str_contains (c # s) sub = (take (length sub) (c # s) = sub \<or> str_contains s sub)"

text \<open>The code points for which \<open>str.isspace\<close> holds; \<open>str.strip()\<close> removes them at both ends.\<close>

definition py_isspace :: "nat \<Rightarrow> bool" where
  "py_isspace c \<longleftrightarrow>
     (0x09 \<le> c \<and> c \<le> 0x0D) \<or> (0x1C \<le> c \<and> c \<le> 0x20) \<or> c = 0x85 \<or> c = 0xA0 \<or>
     c = 0x1680 \<or> (0x2000 \<le> c \<and> c \<le> 0x200A) \<or> c = 0x2028 \<or> c = 0x2029 \<or>
     c = 0x202F \<or> c = 0x205F \<or> c = 0x3000"

definition strip :: "pystr \<Rightarrow> pystr" where
  "strip s = rev (dropWhile py_isspace (rev (dropWhile py_isspace s)))"

subsection \<open>The random source\<close>

text \<open>
  The module \<open>random\<close> is a hidden state. It is modelled as the infinite sequence of
  the numbers it will draw, passed to every operation that draws and returned with the
  draws it used removed. A statement for every sequence holds for every outcome.
  \<open>random.choice(xs)\<close> raises \<open>IndexError\<close> on an empty list and otherwise returns
  \<open>xs[randbelow(len(xs))]\<close>; \<open>random.shuffle(xs)\<close> is the loop
  \<open>for i in reversed(range(1, len(xs))): j = randbelow(i + 1); xs[i], xs[j] = xs[j], xs[i]\<close>.
\<close>

type_synonym rng = "nat \<Rightarrow> nat"

definition randbelow :: "nat \<Rightarrow> rng \<Rightarrow> nat \<times> rng" where
  "randbelow n g = (g 0 mod n, \<lambda>i. g (Suc i))"

definition choice :: "'a list \<Rightarrow> rng \<Rightarrow> py_error + ('a \<times> rng)" where
  "choice xs g =
     (if xs = [] then Inl IndexError
      else (let (i, g') = randbelow (length xs) g in Inr (xs ! i, g')))"

fun shuffle_from :: "nat \<Rightarrow> 'a list \<Rightarrow> rng \<Rightarrow> 'a list \<times> rng" where
  "shuffle_from 0 xs g = (xs, g)"
| "shuffle_from (Suc k) xs g =
     (let (j, g') = randbelow (Suc k + 1) g
      in shuffle_from k (xs[Suc k := xs ! j, j := xs ! Suc k]) g')"

definition shuffle :: "'a list \<Rightarrow> rng \<Rightarrow> 'a list \<times> rng" where
  "shuffle xs g = shuffle_from (length xs - 1) xs g"

section \<open>The game state (\<open>mafia_core.py\<close>)\<close>

datatype Phase = NIGHT | DAY_DISCUSS | DAY_VOTE | END

record Player =
  name :: pystr
  role :: pystr
  alive :: bool

record GameState =
  round :: int
  phase :: Phase
  players :: "(pystr, Player) dict"
  log :: "pystr list"
  dialogue_history :: "pystr list"
  last_line_by_name :: "(pystr, pystr) dict"
  dialogue_round_start_idx :: int

definition alive_players :: "GameState \<Rightarrow> pystr list" where
  "alive_players gs = map name (filter alive (map snd (players gs)))"

definition alive_ai :: "GameState \<Rightarrow> pystr list" where
  "alive_ai gs = filter (\<lambda>n. n \<noteq> HUMAN) (alive_players gs)"

definition mafia_alive :: "GameState \<Rightarrow> nat" where
  "mafia_alive gs = length (filter (\<lambda>p. alive p \<and> role p = MAFIA) (map snd (players gs)))"

definition citizen_alive :: "GameState \<Rightarrow> nat" where
  "citizen_alive gs = length (filter (\<lambda>p. alive p \<and> role p = CITIZEN) (map snd (players gs)))"

definition start_new_day :: "GameState \<Rightarrow> GameState" where
  "start_new_day gs = gs\<lparr>dialogue_round_start_idx := int (length (dialogue_history gs))\<rparr>"

subsection \<open>Mention counts\<close>

definition count_name_in_line :: "pystr \<Rightarrow> pystr \<Rightarrow> int" where
  "count_name_in_line nm line = (if nm = [] \<or> line = [] then 0 else int (str_count line nm))"

text \<open>\<open>{n: 0 for n in ns}\<close>\<close>

definition zero_counts :: "pystr list \<Rightarrow> (pystr, int) dict" where
  "zero_counts ns = foldl (\<lambda>d n. dict_set n 0 d) [] ns"

text \<open>
  The inner loop \<open>for n in alive: counts[n] += _count_name_in_line(n, line)\<close>;
  \<open>counts[n]\<close> raises \<open>KeyError\<close> for a missing key.
\<close>

fun add_line_mentions :: "pystr list \<Rightarrow> pystr \<Rightarrow> (pystr, int) dict \<Rightarrow> py_error + (pystr, int) dict" where
  "add_line_mentions [] line counts = Inr counts"
| "add_line_mentions (n # ns) line counts =
     (case dict_item counts n of
        Inl e \<Rightarrow> Inl e
      | Inr c \<Rightarrow> add_line_mentions ns line (dict_set n (c + count_name_in_line n line) counts))"

fun add_window_mentions :: "pystr list \<Rightarrow> pystr list \<Rightarrow> (pystr, int) dict \<Rightarrow> py_error + (pystr, int) dict" where
  "add_window_mentions [] alive_names counts = Inr counts"
| "add_window_mentions (line # window) alive_names counts =
     (case add_line_mentions alive_names line counts of
        Inl e \<Rightarrow> Inl e
      | Inr counts' \<Rightarrow> add_window_mentions window alive_names counts')"

definition mention_counts_for_today :: "GameState \<Rightarrow> py_error + (pystr, int) dict" where
  "mention_counts_for_today gs =
     (let window = slice_from (dialogue_round_start_idx gs) (dialogue_history gs);
          alive_names = filter (\<lambda>n. n \<noteq> HUMAN) (alive_players gs);
          counts = zero_counts alive_names
      in add_window_mentions window alive_names counts)"

subsection \<open>Creating a game\<close>

definition names :: "pystr list" where
  "names = [[0xB2F9, 0xC2E0], [0xBBFC, 0xC218], [0xC9C0, 0xC5F0], [0xD604, 0xC6B0],
            [0xC218, 0xC544], [0xD558, 0xB9B0], [0xD0DC, 0xD6C8]]"

text \<open>\<open>GameState()\<close> with the defaults of the dataclass.\<close>

definition new_GameState :: GameState where
  "new_GameState =
     \<lparr> round = 1, phase = NIGHT, players = [], log = [], dialogue_history = [],
       last_line_by_name = [], dialogue_round_start_idx = 0 \<rparr>"

definition create_default_game :: "rng \<Rightarrow> py_error + (GameState \<times> rng)" where
  "create_default_game g =
     (let gs = new_GameState;
          gs = foldl (\<lambda>gs n. gs\<lparr>players := dict_set n \<lparr>name = n, role = CITIZEN, alive = True\<rparr> (players gs)\<rparr>)
                 gs names;
          ai_alive = filter (\<lambda>n. n \<noteq> HUMAN) names
      in case choice ai_alive g of
           Inl e \<Rightarrow> Inl e
         | Inr (pick, g') \<Rightarrow>
             (case dict_item (players gs) pick of
                Inl e \<Rightarrow> Inl e
              | Inr p \<Rightarrow> Inr (gs\<lparr>players := dict_set pick (p\<lparr>role := MAFIA\<rparr>) (players gs)\<rparr>, g')))"

subsection \<open>Night\<close>

fun get_current_mafia_items :: "(pystr, Player) dict \<Rightarrow> pystr option" where
  "get_current_mafia_items [] = None"
| "get_current_mafia_items ((nm, p) # items) =
     (if alive p \<and> role p = MAFIA then Some nm else get_current_mafia_items items)"

definition get_current_mafia :: "GameState \<Rightarrow> pystr option" where
  "get_current_mafia gs = get_current_mafia_items (players gs)"

definition FIRST_NIGHT_EVENT :: pystr where
  "FIRST_NIGHT_EVENT =
     [0xCCAB, 0x20, 0xBC24, 0xC740, 0x20, 0xD3C9, 0xD654, 0xB86D, 0xAC8C, 0x20, 0xC9C0,
      0xB098, 0xAC14, 0xC2B5, 0xB2C8, 0xB2E4, 0x2E]"

text \<open>The f-string of line 140 around the victim's name.\<close>

definition night_death_event :: "pystr \<Rightarrow> pystr" where
  "night_death_event pick =
     [0xBC24, 0xC5D0, 0x20] @ pick @
     [0xC774, 0x28, 0xAC00, 0x29, 0x20, 0xC0AC, 0xB9DD, 0xD588, 0xC2B5, 0xB2C8, 0xB2E4, 0x2E]"

text \<open>The inner loop \<open>for n in candidates: if n in line: counts[n] += 1\<close>.\<close>

fun add_line_hits :: "pystr list \<Rightarrow> pystr \<Rightarrow> (pystr, int) dict \<Rightarrow> py_error + (pystr, int) dict" where
  "add_line_hits [] line counts = Inr counts"
| "add_line_hits (n # ns) line counts =
     (if str_contains line n
      then (case dict_item counts n of
              Inl e \<Rightarrow> Inl e
            | Inr c \<Rightarrow> add_line_hits ns line (dict_set n (c + 1) counts))
      else add_line_hits ns line counts)"

fun add_window_hits :: "pystr list \<Rightarrow> pystr list \<Rightarrow> (pystr, int) dict \<Rightarrow> py_error + (pystr, int) dict" where
  "add_window_hits [] candidates counts = Inr counts"
| "add_window_hits (line # window) candidates counts =
     (case add_line_hits candidates line counts of
        Inl e \<Rightarrow> Inl e
      | Inr counts' \<Rightarrow> add_window_hits window candidates counts')"

text \<open>Lines 129 to 134: the victim is drawn among the most mentioned candidates.\<close>

definition pick_victim :: "(pystr, int) dict \<Rightarrow> pystr list \<Rightarrow> rng \<Rightarrow> py_error + (pystr \<times> rng)" where
  "pick_victim counts candidates g =
     (if list_ex (\<lambda>c. c \<noteq> 0) (map snd counts)
      then (case py_max (map snd counts) of
              Inl e \<Rightarrow> Inl e
            | Inr top_count \<Rightarrow> choice (map fst (filter (\<lambda>(n, c). c = top_count) counts)) g)
      else choice candidates g)"

definition mafia_kill :: "GameState \<Rightarrow> rng \<Rightarrow> py_error + (pystr option \<times> GameState \<times> rng)" where
  "mafia_kill gs g =
     (if round gs = 1 then Inr (None, gs\<lparr>log := log gs @ [FIRST_NIGHT_EVENT]\<rparr>, g)
      else case get_current_mafia gs of
        None \<Rightarrow> Inr (None, gs, g)
      | Some mafia_name \<Rightarrow>
          if mafia_name = [] then Inr (None, gs, g)
          else
            let candidates = filter (\<lambda>n. n \<noteq> mafia_name) (alive_players gs)
            in if candidates = [] then Inr (None, gs, g)
               else
                 let window = slice_from (max 0 (int (length (dialogue_history gs)) - 30))
                                (dialogue_history gs)
                 in case add_window_hits window candidates (zero_counts candidates) of
                      Inl e \<Rightarrow> Inl e
                    | Inr counts \<Rightarrow>
                        (case pick_victim counts candidates g of
                           Inl e \<Rightarrow> Inl e
                         | Inr (pick, g') \<Rightarrow>
                             (case map_of (players gs) pick of
                                None \<Rightarrow> Inr (None, gs, g')
                              | Some p \<Rightarrow>
                                  if \<not> alive p then Inr (None, gs, g')
                                  else Inr (Some pick,
                                         gs\<lparr>players := dict_set pick (p\<lparr>alive := False\<rparr>) (players gs),
                                            log := log gs @ [night_death_event pick]\<rparr>,
                                         g'))))"

subsection \<open>The two most mentioned players\<close>

definition top_two_mentions :: "GameState \<Rightarrow> rng \<Rightarrow> py_error + (pystr list \<times> rng)" where
  "top_two_mentions gs g =
     (let alive_names = filter (\<lambda>n. n \<noteq> HUMAN) (alive_players gs)
      in if length alive_names \<le> 2 then Inr (alive_names, g)
         else case mention_counts_for_today gs of
           Inl e \<Rightarrow> Inl e
         | Inr counts \<Rightarrow>
             let ranked = sort_key (\<lambda>x. (- dict_get counts x 0, x)) alive_names;
                 top2 = take 2 (filter (\<lambda>n. dict_get counts n 0 > 0) ranked)
             in if length top2 < 2
                then let pool = filter (\<lambda>n. n \<notin> set top2) alive_names;
                         (pool', g') = shuffle pool g
                     in Inr (top2 @ take (2 - length top2) pool', g')
                else Inr (top2, g))"

subsection \<open>Tally of the votes\<close>

definition NO_LYNCH :: pystr where
  "NO_LYNCH = [0xBB34, 0xCC98, 0xD615]"

text \<open>The loop of lines 178 to 183 over the ballots \<open>(voter, target)\<close>.\<close>

fun count_ballots :: "(pystr, pystr) dict \<Rightarrow> pystr list \<Rightarrow> pystr \<Rightarrow> (pystr, int) dict \<Rightarrow> (pystr, int) dict" where
  "count_ballots [] alive_people no_lynch_label counter = counter"
| "count_ballots ((voter, target) # ballots) alive_people no_lynch_label counter =
     count_ballots ballots alive_people no_lynch_label
       (if target = no_lynch_label
        then dict_set no_lynch_label (dict_get counter no_lynch_label 0 + 1) counter
        else if target \<in> set alive_people
        then dict_set target (dict_get counter target 0 + 1) counter
        else counter)"

definition tally_votes_plurality ::
  "(pystr, pystr) dict \<Rightarrow> pystr list \<Rightarrow> bool \<Rightarrow> pystr \<Rightarrow> py_error + (pystr option \<times> (pystr, int) dict)" where
  "tally_votes_plurality v_dict alive_people allow_no_lynch no_lynch_label =
     (let counter = count_ballots v_dict alive_people no_lynch_label []
      in if counter = [] then Inr (None, [])
         else case py_max (map snd counter) of
           Inl e \<Rightarrow> Inl e
         | Inr top_cnt \<Rightarrow>
             let top_names = sort (map fst (filter (\<lambda>(n, c). c = top_cnt) counter))
             in if length top_names \<noteq> 1 then Inr (None, counter)
                else case top_names of
                  [] \<Rightarrow> Inl IndexError
                | top_name # _ \<Rightarrow>
                    if allow_no_lynch \<and> top_name = no_lynch_label then Inr (None, counter)
                    else Inr (if top_name \<in> set alive_people then Some top_name else None, counter))"

subsection \<open>Win condition\<close>

definition check_win :: "GameState \<Rightarrow> pystr option" where
  "check_win gs =
     (let m = mafia_alive gs; c = citizen_alive gs
      in if m = 0 then Some CITIZEN_WIN
         else if m \<ge> c then Some MAFIA_WIN
         else None)"

section \<open>Discussion (\<open>main.py\<close>)\<close>

subsection \<open>The answer of the language model\<close>

text \<open>
  \<open>llm_call_json\<close> returns the dictionary that \<open>json.loads\<close> read from the answer of
  the service, or the empty dictionary; nothing checks what the dictionary holds.
  Its values are what \<open>json.loads\<close> builds: \<open>None\<close>, booleans, integers, floats,
  strings, lists and dictionaries with string keys. A float is finite, of value
  \<open>m * 2 ^ e\<close>, or one of the infinities and not-a-number that \<open>json.loads\<close> accepts.
\<close>

datatype pyfloat = Finite int int | Infinity bool | NaN

datatype json =
    JNull
  | JBool bool
  | JInt int
  | JFloat pyfloat
  | JStr pystr
  | JList "json list"
  | JObj "(pystr \<times> json) list"

text \<open>The truth value of a JSON value in a condition.\<close>

fun truthy :: "json \<Rightarrow> bool" where
  "truthy JNull = False"
| "truthy (JBool b) = b"
| "truthy (JInt i) = (i \<noteq> 0)"
| "truthy (JFloat (Finite m e)) = (m \<noteq> 0)"
| "truthy (JFloat x) = True"
| "truthy (JStr s) = (s \<noteq> [])"
| "truthy (JList xs) = (xs \<noteq> [])"
| "truthy (JObj obj) = (obj \<noteq> [])"

text \<open>\<open>d.get(k)\<close> on a dictionary read from JSON: \<open>None\<close> for a missing key.\<close>

definition json_get :: "(pystr, json) dict \<Rightarrow> pystr \<Rightarrow> json" where
  "json_get obj k = dict_get obj k JNull"

text \<open>
  What \<open>for item in x\<close> runs over: the elements of a list, the keys of a dictionary,
  the characters of a string; any other value raises \<open>TypeError\<close>.
\<close>

fun py_iter :: "json \<Rightarrow> py_error + json list" where
  "py_iter (JList xs) = Inr xs"
| "py_iter (JObj obj) = Inr (map (\<lambda>f. JStr (fst f)) obj)"
| "py_iter (JStr s) = Inr (map (\<lambda>c. JStr [c]) s)"
| "py_iter x = Inl TypeError"

definition CHARACTER_LINES :: pystr where
  "CHARACTER_LINES = ascii ''character_lines''"

definition NAME :: pystr where
  "NAME = ascii ''name''"

definition LINE :: pystr where
  "LINE = ascii ''line''"

subsection \<open>Fallback phrases and repeated lines\<close>

definition FALLBACKS :: "pystr list" where
  "FALLBACKS =
     [[0x28, 0xC8FC, 0xC704, 0xB97C, 0x20, 0xC0B4, 0xD540, 0xB2E4, 0x2E, 0x29],
      [0x28, 0xB208, 0xC744, 0x20, 0xD53C, 0xD55C, 0xB2E4, 0x2E, 0x29],
      [0x28, 0xC791, 0xAC8C, 0x20, 0xD55C, 0xC228, 0xC744, 0x20, 0xC270, 0xB2E4, 0x2E, 0x29],
      [0x28, 0xC785, 0xC220, 0xC744, 0x20, 0xAE68, 0xBB38, 0xB2E4, 0x2E, 0x29],
      [0x28, 0xC544, 0xBB34, 0x20, 0xB9D0, 0x20, 0xC5C6, 0xC774, 0x20, 0xBD84, 0xC704, 0xAE30,
       0xB97C, 0x20, 0xC0B4, 0xD540, 0xB2E4, 0x2E, 0x29],
      [0x28, 0xC7A0, 0xC2DC, 0x20, 0xCE68, 0xBB35, 0xC774, 0x20, 0xD750, 0xB978, 0xB2E4, 0x2E,
       0x2E, 0x2E, 0x29],
      [0x28, 0xC758, 0xC2EC, 0xC2A4, 0xB7EC, 0xC6B4, 0x20, 0xD45C, 0xC815, 0xC73C, 0xB85C, 0x20,
       0xC8FC, 0xBCC0, 0xC744, 0x20, 0xBC14, 0xB77C, 0xBCF8, 0xB2E4, 0x2E, 0x29]]"

text \<open>The set \<open>GENERIC_PHRASES\<close>, used for membership only.\<close>

definition GENERIC_PHRASES :: "pystr list" where
  "GENERIC_PHRASES =
     [[0xC800, 0xB3C4, 0x20, 0xB9C8, 0xCC2C, 0xAC00, 0xC9C0, 0xC785, 0xB2C8, 0xB2E4, 0x2E],
      [0xB3D9, 0xC758, 0xD569, 0xB2C8, 0xB2E4, 0x2E],
      [0xB2E8, 0xACB0, 0xD574, 0xC11C, 0x20, 0xC774, 0x20, 0xC704, 0xAE30, 0xB97C, 0x20, 0xD5E4,
       0xCCD0, 0xB098, 0xAC00, 0xC790, 0xAD6C, 0xC694, 0x2E],
      [0xD56D, 0xC0C1, 0x20, 0xACBD, 0xACC4, 0xC2EC, 0xC744, 0x20, 0xAC00, 0xC838, 0xC57C, 0x20,
       0xD569, 0xB2C8, 0xB2E4, 0x2E],
      [0xC870, 0xC2EC, 0xD574, 0xC57C, 0x20, 0xD574, 0xC694, 0x2E],
      [0xBBFF, 0xACE0, 0x20, 0xB2E8, 0xD569, 0xD569, 0xC2DC, 0xB2E4, 0x2E]]"

text \<open>
  \<open>_anti_repeat_line\<close>. The line is whatever the answer held: \<open>(line or "")\<close> is the
  empty string for a value that counts as false, and \<open>.strip()\<close> exists on strings
  only, so any other value raises \<open>AttributeError\<close>.
\<close>

definition anti_repeat_line :: "GameState \<Rightarrow> pystr \<Rightarrow> json \<Rightarrow> rng \<Rightarrow> py_error + (pystr \<times> rng)" where
  "anti_repeat_line gs nm line g =
     (let last = dict_get (last_line_by_name gs) nm []
      in case (if truthy line then line else JStr []) of
           JStr s \<Rightarrow>
             (let norm = strip s
              in if norm = [] \<or> norm \<in> set GENERIC_PHRASES \<or> norm = last
                 then choice FALLBACKS g
                 else Inr (norm, g))
         | _ \<Rightarrow> Inl AttributeError)"

text \<open>The first loop of \<open>_ensure_all_speak\<close>, lines 72 to 74.\<close>

fun fix_pairs ::
  "GameState \<Rightarrow> (pystr \<times> json) list \<Rightarrow> (pystr \<times> pystr) list \<Rightarrow> rng \<Rightarrow>
   py_error + ((pystr \<times> pystr) list \<times> rng)" where
  "fix_pairs gs [] out g = Inr (out, g)"
| "fix_pairs gs ((n, l) # pairs) out g =
     (case anti_repeat_line gs n l g of
        Inl e \<Rightarrow> Inl e
      | Inr (fixed, g') \<Rightarrow> fix_pairs gs pairs (out @ [(n, fixed)]) g')"

text \<open>The second loop, lines 75 to 78, over the living players.\<close>

fun backfill ::
  "pystr list \<Rightarrow> pystr set \<Rightarrow> (pystr \<times> pystr) list \<Rightarrow> rng \<Rightarrow>
   py_error + ((pystr \<times> pystr) list \<times> rng)" where
  "backfill [] spoken out g = Inr (out, g)"
| "backfill (nm # alive_names) spoken out g =
     (if nm = HUMAN then backfill alive_names spoken out g
      else if nm \<notin> spoken
      then (case choice FALLBACKS g of
              Inl e \<Rightarrow> Inl e
            | Inr (l, g') \<Rightarrow> backfill alive_names spoken (out @ [(nm, l)]) g')
      else backfill alive_names spoken out g)"

definition ensure_all_speak ::
  "GameState \<Rightarrow> (pystr \<times> json) list \<Rightarrow> rng \<Rightarrow> py_error + ((pystr \<times> pystr) list \<times> rng)" where
  "ensure_all_speak gs pairs g =
     (let spoken = set (map fst pairs)
      in case fix_pairs gs pairs [] g of
           Inl e \<Rightarrow> Inl e
         | Inr (out, g') \<Rightarrow> backfill (alive_players gs) spoken out g')"

text \<open>
  The loop of lines 98 to 101 over the items of the answer. \<open>item.get\<close> exists on a
  dictionary only, so any other item raises \<open>AttributeError\<close>. A name is in the list of
  living players only if it is a string; the line may be any value that counts as
  true.
\<close>

fun accept_lines ::
  "GameState \<Rightarrow> json list \<Rightarrow> (pystr \<times> json) list \<Rightarrow> py_error + (pystr \<times> json) list" where
  "accept_lines gs [] pairs = Inr pairs"
| "accept_lines gs (JObj obj # items) pairs =
     (let nm = json_get obj NAME; line = json_get obj LINE
      in accept_lines gs items
           (case nm of
              JStr n \<Rightarrow>
                if n \<in> set (alive_players gs) \<and> n \<noteq> HUMAN \<and> truthy line
                then pairs @ [(n, line)]
                else pairs
            | _ \<Rightarrow> pairs))"
| "accept_lines gs (item # items) pairs = Inl AttributeError"

text \<open>The f-string \<open>{name}: {line}\<close> of lines 106 and 107.\<close>

definition transcript_entry :: "pystr \<times> pystr \<Rightarrow> pystr" where
  "transcript_entry e = fst e @ [0x3A, 0x20] @ snd e"

text \<open>
  The last loop, lines 105 to 108. \<open>print\<close> hands the entry to the standard output
  of the process, which is not part of the program: \<open>stdout\<close> tells what \<open>print\<close> raises
  on a text (with a UTF-8 terminal, \<open>UnicodeEncodeError\<close> on a text with a surrogate
  code point), \<open>None\<close> when it prints. The entry is printed before it is written, so a
  raise leaves the entries before it in the state, which is returned with the error.
\<close>

fun record_pairs ::
  "(pystr \<Rightarrow> py_error option) \<Rightarrow> (pystr \<times> pystr) list \<Rightarrow> GameState \<Rightarrow>
   (py_error \<times> GameState) + GameState" where
  "record_pairs stdout [] gs = Inr gs"
| "record_pairs stdout ((n, l) # pairs) gs =
     (case stdout (transcript_entry (n, l)) of
        Some e \<Rightarrow> Inl (e, gs)
      | None \<Rightarrow>
          record_pairs stdout pairs
            (gs\<lparr>dialogue_history := dialogue_history gs @ [transcript_entry (n, l)],
                last_line_by_name := dict_set n l (last_line_by_name gs)\<rparr>))"

text \<open>
  \<open>day_discuss\<close>, from the dictionary \<open>data\<close> that \<open>llm_call_json\<close> returned on; the lines
  before build the request from the state and the message of the user and change
  nothing. The state is written by the last loop alone, so a raise of an earlier
  step leaves it as it was.
\<close>

definition day_discuss ::
  "(pystr \<Rightarrow> py_error option) \<Rightarrow> GameState \<Rightarrow> (pystr, json) dict \<Rightarrow> rng \<Rightarrow>
   (py_error \<times> GameState) + (GameState \<times> rng)" where
  "day_discuss stdout gs data g =
     (case py_iter (dict_get data CHARACTER_LINES (JList [])) of
        Inl e \<Rightarrow> Inl (e, gs)
      | Inr items \<Rightarrow>
          (case accept_lines gs items [] of
             Inl e \<Rightarrow> Inl (e, gs)
           | Inr pairs \<Rightarrow>
               (case ensure_all_speak gs pairs g of
                  Inl e \<Rightarrow> Inl (e, gs)
                | Inr (pairs', g') \<Rightarrow>
                    (case record_pairs stdout pairs' gs of
                       Inl err \<Rightarrow> Inl err
                     | Inr gs' \<Rightarrow> Inr (gs', g')))))"

section \<open>Sanitizing (\<open>memory.py\<close>)\<close>

subsection \<open>The UTF-8 codec with \<open>errors="ignore"\<close>\<close>

text \<open>
  \<open>s.encode("utf-8", "ignore")\<close> writes every code point in one to four bytes and
  leaves out the code points UTF-8 cannot encode, the surrogates \<open>U+D800\<close> to
  \<open>U+DFFF\<close>. A \<open>str\<close> holds no number above \<open>U+10FFFF\<close>; the model leaves such a
  number out as well.
\<close>

definition utf8_encode_cp :: "nat \<Rightarrow> nat list" where
  "utf8_encode_cp c =
     (if c < 0x80 then [c]
      else if c < 0x800 then [0xC0 + c div 64, 0x80 + c mod 64]
      else if 0xD800 \<le> c \<and> c \<le> 0xDFFF then []
      else if c < 0x10000 then [0xE0 + c div 4096, 0x80 + c div 64 mod 64, 0x80 + c mod 64]
      else if c < 0x110000
      then [0xF0 + c div 262144, 0x80 + c div 4096 mod 64, 0x80 + c div 64 mod 64, 0x80 + c mod 64]
      else [])"

definition utf8_encode :: "pystr \<Rightarrow> nat list" where
  "utf8_encode s = concat (map utf8_encode_cp s)"

definition is_cont :: "nat \<Rightarrow> bool" where
  "is_cont b \<longleftrightarrow> 0x80 \<le> b \<and> b \<le> 0xBF"

text \<open>The second byte of a sequence of three or four bytes is restricted by the first.\<close>

definition second_ok :: "nat \<Rightarrow> nat \<Rightarrow> bool" where
  "second_ok b b1 =
     (if b = 0xE0 then 0xA0 \<le> b1 \<and> b1 \<le> 0xBF
      else if b = 0xED then 0x80 \<le> b1 \<and> b1 \<le> 0x9F
      else if b = 0xF0 then 0x90 \<le> b1 \<and> b1 \<le> 0xBF
      else if b = 0xF4 then 0x80 \<le> b1 \<and> b1 \<le> 0x8F
      else is_cont b1)"

text \<open>
  \<open>bs.decode("utf-8", "ignore")\<close>: a byte that cannot start a sequence is left out; a
  sequence broken by a byte that cannot continue it is left out and decoding goes on
  at that byte; a sequence cut by the end of the input is left out.
\<close>

fun utf8_decode :: "nat list \<Rightarrow> pystr" where
  "utf8_decode [] = []"
| "utf8_decode (b # bs) =
     (if b < 0x80 then b # utf8_decode bs
      else if b < 0xC2 then utf8_decode bs
      else if b < 0xE0 then
        (case bs of
           [] \<Rightarrow> []
         | b1 # r \<Rightarrow>
             if is_cont b1 then ((b - 0xC0) * 64 + (b1 - 0x80)) # utf8_decode r
             else utf8_decode bs)
      else if b < 0xF0 then
        (case bs of
           [] \<Rightarrow> []
         | b1 # r1 \<Rightarrow>
             if second_ok b b1 then
               (case r1 of
                  [] \<Rightarrow> []
                | b2 # r \<Rightarrow>
                    if is_cont b2
                    then ((b - 0xE0) * 4096 + (b1 - 0x80) * 64 + (b2 - 0x80)) # utf8_decode r
                    else utf8_decode r1)
             else utf8_decode bs)
      else if b < 0xF5 then
        (case bs of
           [] \<Rightarrow> []
         | b1 # r1 \<Rightarrow>
             if second_ok b b1 then
               (case r1 of
                  [] \<Rightarrow> []
                | b2 # r2 \<Rightarrow>
                    if is_cont b2 then
                      (case r2 of
                         [] \<Rightarrow> []
                       | b3 # r \<Rightarrow>
                           if is_cont b3
                           then ((b - 0xF0) * 262144 + (b1 - 0x80) * 4096 + (b2 - 0x80) * 64
                                 + (b3 - 0x80)) # utf8_decode r
                           else utf8_decode r2)
                    else utf8_decode r1)
             else utf8_decode bs)
      else utf8_decode bs)"

text \<open>
  \<open>_clean_str\<close>. Its argument is a \<open>str\<close> wherever \<open>_sanitize\<close> calls it, so the
  conversion \<open>str(s)\<close> of another object has no counterpart here.
\<close>

definition clean_str :: "pystr \<Rightarrow> pystr" where
  "clean_str s = utf8_decode (utf8_encode s)"

subsection \<open>Nested values\<close>

text \<open>
  The objects \<open>_sanitize\<close> tells apart: \<open>None\<close>, strings, dictionaries (the items in
  insertion order), lists, tuples and sets; every other object (numbers, booleans
  and so on) is a \<open>POther\<close>, and its type \<open>'a\<close> carries Python's \<open>==\<close> as equality.
\<close>

datatype 'a pyobj =
    PNone
  | PStr pystr
  | PDict "('a pyobj \<times> 'a pyobj) list"
  | PList "'a pyobj list"
  | PTuple "'a pyobj list"
  | PSet "'a pyobj fset"
  | POther 'a

text \<open>
  The dictionary comprehension \<open>{k: v for k, v in items}\<close>: a key that comes again
  keeps its place and takes the later value.
\<close>

definition dict_of_items :: "('k \<times> 'v) list \<Rightarrow> ('k, 'v) dict" where
  "dict_of_items items = foldl (\<lambda>d (k, v). dict_set k v d) [] items"

primrec sanitize :: "'a pyobj \<Rightarrow> 'a pyobj" where
  "sanitize PNone = PNone"
| "sanitize (PStr s) = PStr (clean_str s)"
| "sanitize (PDict items) = PDict (dict_of_items (map (map_prod sanitize sanitize) items))"
| "sanitize (PList xs) = PList (map sanitize xs)"
| "sanitize (PTuple xs) = PTuple (map sanitize xs)"
| "sanitize (PSet xs) = PSet (sanitize |`| xs)"
| "sanitize (POther a) = POther a"



section \<open>Notions of the specification\<close>

text \<open>
  The tally is specified in terms of the legal targets (the living players and the
  no-lynch label) and of the number of ballots that name a target.
\<close>

definition valid_target :: "pystr list \<Rightarrow> pystr \<Rightarrow> pystr \<Rightarrow> bool" where
  "valid_target alive_people no_lynch_label t \<longleftrightarrow> t = no_lynch_label \<or> t \<in> set alive_people"

definition votes_for :: "(pystr, pystr) dict \<Rightarrow> pystr \<Rightarrow> nat" where
  "votes_for v_dict t = count_list (map snd v_dict) t"

text \<open>
  The day window is the transcript from the start index of the day on. The mention
  count of a name is the total of its occurrences in the lines of the window; the
  loop adds it once for each living player of that name, which is once when the
  names of the living players are distinct.
\<close>

definition day_window :: "GameState \<Rightarrow> pystr list" where
  "day_window gs = slice_from (dialogue_round_start_idx gs) (dialogue_history gs)"

definition mentions_today :: "GameState \<Rightarrow> pystr \<Rightarrow> int" where
  "mentions_today gs n =
     int (count_list (alive_ai gs) n) * sum_list (map (count_name_in_line n) (day_window gs))"

text \<open>
  An answer of the service has the expected types when \<open>character_lines\<close>, if present,
  is a list of dictionaries, and the line of an item is a string whenever the item
  names a living AI player and its line counts as true. The lines the answer proposes
  are the non-empty string lines of the items that name a living AI player, in the
  order of the answer.
\<close>

fun is_str :: "json \<Rightarrow> bool" where
  "is_str (JStr s) = True"
| "is_str x = False"

fun item_name :: "json \<Rightarrow> json" where
  "item_name (JObj obj) = json_get obj NAME"
| "item_name x = JNull"

fun item_line :: "json \<Rightarrow> json" where
  "item_line (JObj obj) = json_get obj LINE"
| "item_line x = JNull"

definition names_living_ai :: "GameState \<Rightarrow> json \<Rightarrow> bool" where
  "names_living_ai gs item =
     (case item_name item of JStr n \<Rightarrow> n \<in> set (alive_ai gs) | _ \<Rightarrow> False)"

fun well_typed_item :: "GameState \<Rightarrow> json \<Rightarrow> bool" where
  "well_typed_item gs (JObj obj) =
     (if names_living_ai gs (JObj obj) \<and> truthy (json_get obj LINE)
      then is_str (json_get obj LINE) else True)"
| "well_typed_item gs x = False"

definition well_typed_answer :: "GameState \<Rightarrow> (pystr, json) dict \<Rightarrow> bool" where
  "well_typed_answer gs data =
     (case map_of data CHARACTER_LINES of
        None \<Rightarrow> True
      | Some (JList items) \<Rightarrow> list_all (well_typed_item gs) items
      | Some x \<Rightarrow> False)"

definition proposed_line :: "GameState \<Rightarrow> json \<Rightarrow> (pystr \<times> pystr) list" where
  "proposed_line gs item =
     (case (item_name item, item_line item) of
        (JStr n, JStr l) \<Rightarrow> if n \<in> set (alive_ai gs) \<and> l \<noteq> [] then [(n, l)] else []
      | _ \<Rightarrow> [])"

definition proposed_lines :: "GameState \<Rightarrow> (pystr, json) dict \<Rightarrow> (pystr \<times> pystr) list" where
  "proposed_lines gs data =
     (case map_of data CHARACTER_LINES of
        Some (JList items) \<Rightarrow> concat (map (proposed_line gs) items)
      | _ \<Rightarrow> [])"

text \<open>
  The anti-repetition filter turns a proposed line down when, stripped, it is empty,
  a generic phrase, or the line the speaker said last.
\<close>

definition turned_down :: "GameState \<Rightarrow> pystr \<times> pystr \<Rightarrow> bool" where
  "turned_down gs p \<longleftrightarrow>
     strip (snd p) = [] \<or> strip (snd p) \<in> set GENERIC_PHRASES \<or>
     strip (snd p) = dict_get (last_line_by_name gs) (fst p) []"

text \<open>The fallback phrase of the \<open>i\<close>-th draw of a random source.\<close>

definition drawn_fallback :: "rng \<Rightarrow> nat \<Rightarrow> pystr" where
  "drawn_fallback g i = FALLBACKS ! (g i mod length FALLBACKS)"

text \<open>
  The standard output prints a turn when it accepts, for every living AI player,
  the entry of each fallback phrase and of each line proposed for the player,
  stripped.
\<close>

definition prints_turn ::
  "(pystr \<Rightarrow> py_error option) \<Rightarrow> GameState \<Rightarrow> (pystr, json) dict \<Rightarrow> bool" where
  "prints_turn stdout gs data =
     list_all
       (\<lambda>n. list_all (\<lambda>l. stdout (transcript_entry (n, l)) = None)
          (FALLBACKS @
           map (\<lambda>p. strip (snd p)) (filter (\<lambda>p. fst p = n) (proposed_lines gs data))))
       (alive_ai gs)"

section \<open>Concrete states\<close>

text \<open>A roster of one mafia and one citizen, both eliminated.\<close>

definition all_dead_game :: GameState where
  "all_dead_game =
     \<lparr> round = 3, phase = NIGHT,
       players = [(HUMAN, \<lparr>name = HUMAN, role = CITIZEN, alive = False\<rparr>),
                  ([0xBBFC, 0xC218], \<lparr>name = [0xBBFC, 0xC218], role = MAFIA, alive = False\<rparr>)],
       log = [], dialogue_history = [], last_line_by_name = [],
       dialogue_round_start_idx = 0 \<rparr>"

text \<open>The game \<open>create_default_game\<close> returns when the draw falls on the first candidate.\<close>

definition sample_game :: GameState where
  "sample_game =
     new_GameState\<lparr>players :=
       map (\<lambda>n. (n, \<lparr>name = n, role = (if n = [0xBBFC, 0xC218] then MAFIA else CITIZEN),
                     alive = True\<rparr>)) names\<rparr>"

text \<open>The second day of that game, after three lines of discussion.\<close>

definition discuss_game :: GameState where
  "discuss_game =
     sample_game\<lparr>round := 2, phase := DAY_DISCUSS,
       dialogue_history :=
         [HUMAN @ [0x3A, 0x20] @ [0xC9C0, 0xC5F0] @ [0x3F],
          [0xBBFC, 0xC218] @ [0x3A, 0x20] @ [0xC9C0, 0xC5F0] @ [0x20] @ [0xD604, 0xC6B0],
          [0xC218, 0xC544] @ [0x3A, 0x20] @ [0xD604, 0xC6B0] @ [0x20] @ [0xC9C0, 0xC5F0]]\<rparr>"

text \<open>The ballots of the scenarios of the specification, over three players.\<close>

definition player_A :: pystr where
  "player_A = ascii ''A''"

definition player_B :: pystr where
  "player_B = ascii ''B''"

definition player_C :: pystr where
  "player_C = ascii ''C''"

definition scenario_living :: "pystr list" where
  "scenario_living = [player_A, player_B, player_C]"

definition scenario_votes :: "(pystr, pystr) dict" where
  "scenario_votes = [(player_B, player_C), (player_C, player_C), (player_A, NO_LYNCH)]"

definition tie_votes :: "(pystr, pystr) dict" where
  "tie_votes = [(player_A, player_B), (player_B, player_A)]"

definition no_lynch_votes :: "(pystr, pystr) dict" where
  "no_lynch_votes = [(player_A, NO_LYNCH), (player_B, NO_LYNCH), (player_C, player_A)]"

text \<open>Ballots for a name that is not a legal target.\<close>

definition stray_votes :: "(pystr, pystr) dict" where
  "stray_votes = [(player_A, ascii ''Z''), (player_B, ascii ''Z'')]"

text \<open>An answer of the language model with two lines for the same living player.\<close>

definition minsu :: pystr where
  "minsu = [0xBBFC, 0xC218]"

definition repeated_lines :: "(pystr, json) dict" where
  "repeated_lines =
     [(CHARACTER_LINES,
       JList [JObj [(NAME, JStr minsu), (LINE, JStr (ascii ''A''))],
              JObj [(NAME, JStr minsu), (LINE, JStr (ascii ''B''))]])]"

definition repeated_turn :: "(pystr \<times> pystr) list" where
  "repeated_turn =
     [(minsu, ascii ''A''), (minsu, ascii ''B'')] @ map (\<lambda>n. (n, FALLBACKS ! 0)) (drop 2 names)"

text \<open>An answer with one line for one living player.\<close>

definition single_lines :: "(pystr, json) dict" where
  "single_lines = [(CHARACTER_LINES, JList [JObj [(NAME, JStr minsu), (LINE, JStr (ascii ''A''))]])]"

text \<open>An answer whose line for a living player is a number.\<close>

definition number_line :: "(pystr, json) dict" where
  "number_line = [(CHARACTER_LINES, JList [JObj [(NAME, JStr minsu), (LINE, JInt 5)]])]"

text \<open>A standard output that prints every text, and a strict UTF-8 one.\<close>

definition any_stdout :: "pystr \<Rightarrow> py_error option" where
  "any_stdout s = None"

definition utf8_stdout :: "pystr \<Rightarrow> py_error option" where
  "utf8_stdout s = (if list_ex (\<lambda>c. 0xD800 \<le> c \<and> c \<le> 0xDFFF) s then Some UnicodeEncodeError else None)"

text \<open>An answer with a line for each of two living players, the second with a lone surrogate.\<close>

definition surrogate_lines :: "(pystr, json) dict" where
  "surrogate_lines =
     [(CHARACTER_LINES,
       JList [JObj [(NAME, JStr minsu), (LINE, JStr (ascii ''A''))],
              JObj [(NAME, JStr [0xC9C0, 0xC5F0]), (LINE, JStr [0xD83D])]])]"

text \<open>Two living players of the roster other than \<open>minsu\<close>.\<close>

definition jiyeon :: pystr where
  "jiyeon = [0xC9C0, 0xC5F0]"

definition hyunwoo :: pystr where
  "hyunwoo = [0xD604, 0xC6B0]"

text \<open>The same day with the start index of the day at the end of the transcript.\<close>

definition quiet_game :: GameState where
  "quiet_game = discuss_game\<lparr>dialogue_round_start_idx := 3\<rparr>"

section \<open>Dictionaries and built-in operations\<close>

lemma map_of_dict_set: "map_of (dict_set k v d) = (map_of d)(k \<mapsto> v)"
  by (induction d) (auto simp: fun_eq_iff)

lemma keys_dict_set:
  "map fst (dict_set k v d) = (if k \<in> fst ` set d then map fst d else map fst d @ [k])"
proof (induction d)
  case (Cons p d)
  then show ?case
    by (cases p) force
qed simp

lemma distinct_dict_set: "distinct (map fst d) \<Longrightarrow> distinct (map fst (dict_set k v d))"
  by (simp add: keys_dict_set)


lemma dict_set_not_Nil: "dict_set k v d \<noteq> []"
  by (cases d) (auto split: if_splits)

lemma py_max_nonempty: "xs \<noteq> [] \<Longrightarrow> py_max xs = Inr (Max (set xs))"
proof (cases xs)
  case (Cons x ys)
  have "foldl max x ys = fold max ys x"
    by (simp add: foldl_conv_fold max.commute)
  then show ?thesis
    using Cons Max.set_eq_fold [of x ys] by simp
qed simp

lemma win_labels_differ: "CITIZEN_WIN \<noteq> MAFIA_WIN"
  by (simp add: CITIZEN_WIN_def MAFIA_WIN_def ascii_def)

lemma role_labels_differ: "MAFIA \<noteq> CITIZEN" "CITIZEN \<noteq> MAFIA"
  by (simp_all add: MAFIA_def CITIZEN_def ascii_def)

section \<open>Win condition\<close>

text \<open>
  C1, as stated, at a state of a single-mafia roster in which nobody lives: the living
  mafia count, 0, is at least the living citizen count, 0, and \<open>check_win\<close> does not
  return \<open>MAFIA_WIN\<close>; it returns \<open>CITIZEN_WIN\<close>, because the test for no living mafia
  comes first. Both winning conditions of the claim hold at this state.
\<close>

theorem check_win_all_dead:
  "citizen_alive all_dead_game \<le> mafia_alive all_dead_game \<and>
   mafia_alive all_dead_game = 0 \<and>
   check_win all_dead_game = Some CITIZEN_WIN \<and>
   check_win all_dead_game \<noteq> Some MAFIA_WIN"
  by (simp add: check_win_def all_dead_game_def mafia_alive_def citizen_alive_def
      win_labels_differ)

text \<open>
  C1, amended: \<open>check_win\<close> returns \<open>CITIZEN_WIN\<close> exactly when no mafia lives,
  \<open>MAFIA_WIN\<close> exactly when some mafia lives and the living mafia are at least as many
  as the living citizens, and no winner exactly when some mafia lives and the living
  citizens are more. While a citizen lives, \<open>MAFIA_WIN\<close> is returned exactly when the
  living mafia are at least as many as the living citizens, and the two winning
  conditions exclude each other.
\<close>

theorem check_win_cases:
  "(check_win gs = Some CITIZEN_WIN \<longleftrightarrow> mafia_alive gs = 0) \<and>
   (check_win gs = Some MAFIA_WIN \<longleftrightarrow> 0 < mafia_alive gs \<and> citizen_alive gs \<le> mafia_alive gs) \<and>
   (check_win gs = None \<longleftrightarrow> 0 < mafia_alive gs \<and> mafia_alive gs < citizen_alive gs) \<and>
   (0 < citizen_alive gs \<longrightarrow>
      (check_win gs = Some MAFIA_WIN \<longleftrightarrow> citizen_alive gs \<le> mafia_alive gs) \<and>
      \<not> (mafia_alive gs = 0 \<and> citizen_alive gs \<le> mafia_alive gs))"
  using win_labels_differ by (auto simp: check_win_def Let_def)

theorem check_win_cases_witness:
  "0 < citizen_alive sample_game \<and>
   citizen_alive sample_game = 6 \<and> mafia_alive sample_game = 1 \<and>
   check_win sample_game = None \<and>
   \<not> (mafia_alive sample_game = 0 \<and> citizen_alive sample_game \<le> mafia_alive sample_game)"
proof -
  have c: "citizen_alive sample_game = 6"
    by (simp add: citizen_alive_def sample_game_def new_GameState_def names_def
        role_labels_differ)
  have m: "mafia_alive sample_game = 1"
    by (simp add: mafia_alive_def sample_game_def new_GameState_def names_def
        role_labels_differ)
  show ?thesis
    using check_win_cases [of sample_game] c m by simp
qed

section \<open>Night\<close>

text \<open>
  C4: in round 1 \<open>mafia_kill\<close> returns no victim and the state it was given with one
  more event, the fixed first-night event, at the end of the log; no other field of
  the state, hence no alive flag, changes, and nothing is drawn.
\<close>

theorem mafia_kill_first_night:
  assumes "round gs = 1"
  shows "mafia_kill gs g = Inr (None, gs\<lparr>log := log gs @ [FIRST_NIGHT_EVENT]\<rparr>, g) \<and>
     players (gs\<lparr>log := log gs @ [FIRST_NIGHT_EVENT]\<rparr>) = players gs \<and>
     alive_players (gs\<lparr>log := log gs @ [FIRST_NIGHT_EVENT]\<rparr>) = alive_players gs \<and>
     mafia_alive (gs\<lparr>log := log gs @ [FIRST_NIGHT_EVENT]\<rparr>) = mafia_alive gs \<and>
     citizen_alive (gs\<lparr>log := log gs @ [FIRST_NIGHT_EVENT]\<rparr>) = citizen_alive gs"
proof -
  let ?gs' = "gs\<lparr>log := log gs @ [FIRST_NIGHT_EVENT]\<rparr>"
  have run: "mafia_kill gs g = Inr (None, ?gs', g)"
    unfolding mafia_kill_def using assms by simp
  have frame: "players ?gs' = players gs"
    by simp
  then have "alive_players ?gs' = alive_players gs"
    and "mafia_alive ?gs' = mafia_alive gs"
    and "citizen_alive ?gs' = citizen_alive gs"
    unfolding alive_players_def mafia_alive_def citizen_alive_def by simp_all
  then show ?thesis
    using run frame by simp
qed

theorem mafia_kill_first_night_witness:
  "round sample_game = 1 \<and>
   mafia_kill sample_game (\<lambda>_. 0) = Inr (None, sample_game\<lparr>log := [FIRST_NIGHT_EVENT]\<rparr>, \<lambda>_. 0)"
proof -
  have r: "round sample_game = 1"
    by (simp add: sample_game_def new_GameState_def)
  have l: "log sample_game = []"
    by (simp add: sample_game_def new_GameState_def)
  show ?thesis
    using mafia_kill_first_night [OF r, of "\<lambda>_. 0"] r l by simp
qed

section \<open>Creating a game\<close>

lemma mod6_cases:
  "(n::nat) mod 6 = 0 \<or> n mod 6 = 1 \<or> n mod 6 = 2 \<or> n mod 6 = 3 \<or> n mod 6 = 4 \<or> n mod 6 = 5"
  by presburger

lemma create_default_game_eq:
  "create_default_game g =
     Inr (new_GameState\<lparr>players :=
            map (\<lambda>n. (n, \<lparr>name = n, role = (if n = names ! Suc (g 0 mod 6) then MAFIA else CITIZEN),
                          alive = True\<rparr>)) names\<rparr>,
          \<lambda>i. g (Suc i))"
  using mod6_cases [of "g 0"]
  by (elim disjE)
     (simp_all add: create_default_game_def names_def new_GameState_def HUMAN_def choice_def
        randbelow_def dict_item_def Let_def)

text \<open>
  C5: \<open>create_default_game\<close> raises nothing for any draw. The state it returns has the
  seven fixed names as keys and as the names of its players, in that order, all of
  them alive; the human player is a citizen; one player, who is not the human, is
  the mafia and the six others are citizens; the round is 1, the phase is
  \<open>NIGHT\<close>, and the transcript and the event log are empty.
\<close>

theorem create_default_game_total:
  "\<exists>gs g' pick.
     create_default_game g = Inr (gs, g') \<and>
     length names = 7 \<and> distinct names \<and>
     map fst (players gs) = names \<and>
     alive_players gs = names \<and>
     map_of (players gs) HUMAN = Some \<lparr>name = HUMAN, role = CITIZEN, alive = True\<rparr> \<and>
     pick \<in> set names \<and> pick \<noteq> HUMAN \<and>
     map (role \<circ> snd) (players gs) = map (\<lambda>n. if n = pick then MAFIA else CITIZEN) names \<and>
     mafia_alive gs = 1 \<and> citizen_alive gs = 6 \<and>
     round gs = 1 \<and> phase gs = NIGHT \<and> dialogue_history gs = [] \<and> log gs = []"
proof -
  let ?pick = "names ! Suc (g 0 mod 6)"
  let ?gs = "new_GameState\<lparr>players :=
            map (\<lambda>n. (n, \<lparr>name = n, role = (if n = ?pick then MAFIA else CITIZEN),
                          alive = True\<rparr>)) names\<rparr>"
  have 1: "length names = 7 \<and> distinct names"
    by (simp add: names_def)
  have 2: "map fst (players ?gs) = names \<and> alive_players ?gs = names"
    by (simp add: alive_players_def comp_def)
  have 3: "map_of (players ?gs) HUMAN = Some \<lparr>name = HUMAN, role = CITIZEN, alive = True\<rparr>"
    using mod6_cases [of "g 0"]
    by (elim disjE) (simp_all add: names_def HUMAN_def)
  have 4: "?pick \<in> set names \<and> ?pick \<noteq> HUMAN"
    using mod6_cases [of "g 0"]
    by (elim disjE) (simp_all add: names_def HUMAN_def)
  have 5: "map (role \<circ> snd) (players ?gs) = map (\<lambda>n. if n = ?pick then MAFIA else CITIZEN) names"
    by (simp add: comp_def)
  have 6: "mafia_alive ?gs = 1 \<and> citizen_alive ?gs = 6"
    using mod6_cases [of "g 0"]
    by (elim disjE)
       (simp_all add: names_def mafia_alive_def citizen_alive_def role_labels_differ)
  have 7: "round ?gs = 1 \<and> phase ?gs = NIGHT \<and> dialogue_history ?gs = [] \<and> log ?gs = []"
    by (simp add: new_GameState_def)
  show ?thesis
    using create_default_game_eq [of g] 1 2 3 4 5 6 7 by blast
qed

section \<open>Tally of the votes\<close>

lemma distinct_count_ballots:
  "distinct (map fst acc) \<Longrightarrow> distinct (map fst (count_ballots v living lbl acc))"
  by (induction v living lbl acc rule: count_ballots.induct) (simp_all add: distinct_dict_set)

lemma map_of_count_ballots:
  "map_of (count_ballots v living lbl acc) t =
     (if valid_target living lbl t \<and> 0 < votes_for v t
      then Some (dict_get acc t 0 + int (votes_for v t))
      else map_of acc t)"
proof (induction v living lbl acc rule: count_ballots.induct)
  case (1 living lbl counter)
  then show ?case by (simp add: votes_for_def)
next
  case (2 voter target ballots living lbl counter)
  then show ?case
    by (auto simp: votes_for_def valid_target_def map_of_dict_set dict_get_def split: option.splits)
qed

lemma counter_lookup:
  "map_of (count_ballots v living lbl []) t =
     (if valid_target living lbl t \<and> 0 < votes_for v t then Some (int (votes_for v t)) else None)"
  by (simp add: map_of_count_ballots dict_get_def)

lemma counter_distinct: "distinct (map fst (count_ballots v living lbl []))"
  by (simp add: distinct_count_ballots)

lemma counter_entry:
  "(k, c) \<in> set (count_ballots v living lbl []) \<longleftrightarrow>
     valid_target living lbl k \<and> 0 < votes_for v k \<and> c = int (votes_for v k)"
proof -
  have "(k, c) \<in> set (count_ballots v living lbl []) \<longleftrightarrow>
          map_of (count_ballots v living lbl []) k = Some c"
    using counter_distinct [of v living lbl] by simp
  then show ?thesis
    by (auto simp: counter_lookup)
qed

lemma filter_key:
  "distinct (map fst al) \<Longrightarrow> (t, c) \<in> set al \<Longrightarrow> filter (\<lambda>p. fst p = t) al = [(t, c)]"
proof (induction al)
  case Nil
  then show ?case by simp
next
  case (Cons p al)
  have notin: "fst p \<notin> fst ` set al" and dist: "distinct (map fst al)"
    using Cons.prems(1) by simp_all
  show ?case
  proof (cases "fst p = t")
    case True
    have "\<forall>q\<in>set al. fst q \<noteq> t"
      using notin True by blast
    then have rest: "filter (\<lambda>p. fst p = t) al = []"
      by (simp add: filter_empty_conv)
    have "(t, c) \<notin> set al"
      using \<open>\<forall>q\<in>set al. fst q \<noteq> t\<close> by force
    then have "p = (t, c)"
      using Cons.prems(2) by simp
    then show ?thesis
      using rest by simp
  next
    case False
    then have "(t, c) \<in> set al"
      using Cons.prems(2) by auto
    then have "filter (\<lambda>p. fst p = t) al = [(t, c)]"
      by (rule Cons.IH [OF dist])
    then show ?thesis
      using False by simp
  qed
qed

lemma filter_unique:
  assumes "distinct (map fst al)" and "(t, c) \<in> set al"
    and "\<forall>p\<in>set al. P p \<longleftrightarrow> fst p = t"
  shows "filter P al = [(t, c)]"
proof -
  have "filter P al = filter (\<lambda>p. fst p = t) al"
    using assms(3) by (intro filter_cong) simp_all
  then show ?thesis
    using filter_key [OF assms(1,2)] by simp
qed

lemma tally_nonempty:
  assumes "count_ballots v living lbl [] \<noteq> []"
  shows "tally_votes_plurality v living allow lbl =
     (let counter = count_ballots v living lbl [];
          top_cnt = Max (set (map snd counter));
          top_names = sort (map fst (filter (\<lambda>(n, c). c = top_cnt) counter))
      in if length top_names \<noteq> 1 then Inr (None, counter)
         else case top_names of
           [] \<Rightarrow> Inl IndexError
         | top_name # _ \<Rightarrow>
             if allow \<and> top_name = lbl then Inr (None, counter)
             else Inr (if top_name \<in> set living then Some top_name else None, counter))"
  using assms py_max_nonempty [of "map snd (count_ballots v living lbl [])"]
  by (simp add: tally_votes_plurality_def Let_def)

lemma tally_unique_top:
  assumes valid: "valid_target living lbl t"
    and top: "\<forall>t'. valid_target living lbl t' \<and> t' \<noteq> t \<longrightarrow> votes_for v t' < votes_for v t"
    and pos: "0 < votes_for v t"
  shows "tally_votes_plurality v living allow lbl =
     Inr (if allow \<and> t = lbl then None else if t \<in> set living then Some t else None,
          count_ballots v living lbl [])"
proof -
  let ?counter = "count_ballots v living lbl []"
  let ?N = "int (votes_for v t)"
  have t_in: "(t, ?N) \<in> set ?counter"
    using valid pos by (simp add: counter_entry)
  then have ne: "?counter \<noteq> []"
    by auto
  have le: "c \<le> ?N" if "c \<in> set (map snd ?counter)" for c
  proof -
    have "c \<in> snd ` set ?counter"
      using that by simp
    then obtain p where "p \<in> set ?counter" and "c = snd p"
      by blast
    then obtain k where "(k, c) \<in> set ?counter"
      by (metis prod.collapse)
    then have "valid_target living lbl k" and "c = int (votes_for v k)"
      by (simp_all add: counter_entry)
    then show ?thesis
      using top by (cases "k = t") auto
  qed
  have "?N \<in> set (map snd ?counter)"
    using t_in by force
  then have mx: "Max (set (map snd ?counter)) = ?N"
    using le by (intro Max_eqI) auto
  have "\<forall>p\<in>set ?counter. (case p of (n, c) \<Rightarrow> c = ?N) \<longleftrightarrow> fst p = t"
  proof
    fix p
    assume p: "p \<in> set ?counter"
    obtain k c where kc: "p = (k, c)"
      by (cases p)
    have "valid_target living lbl k" and "c = int (votes_for v k)"
      using p kc by (simp_all add: counter_entry)
    then show "(case p of (n, c) \<Rightarrow> c = ?N) \<longleftrightarrow> fst p = t"
      using top kc by (cases "k = t") auto
  qed
  then have "filter (\<lambda>(n, c). c = ?N) ?counter = [(t, ?N)]"
    by (rule filter_unique [OF counter_distinct t_in])
  then show ?thesis
    using ne mx by (simp add: tally_nonempty Let_def)
qed

lemma players_differ:
  "player_A \<noteq> player_B" "player_B \<noteq> player_A" "player_A \<noteq> player_C" "player_C \<noteq> player_A"
  "player_B \<noteq> player_C" "player_C \<noteq> player_B"
  "player_A \<noteq> NO_LYNCH" "player_B \<noteq> NO_LYNCH" "player_C \<noteq> NO_LYNCH"
  "NO_LYNCH \<noteq> player_A" "NO_LYNCH \<noteq> player_B" "NO_LYNCH \<noteq> player_C"
  "ascii ''Z'' \<noteq> player_A" "ascii ''Z'' \<noteq> player_B" "ascii ''Z'' \<noteq> player_C"
  "ascii ''Z'' \<noteq> NO_LYNCH"
  by (simp_all add: player_A_def player_B_def player_C_def NO_LYNCH_def ascii_def)

lemma sort_eq_Nil: "sort_key f xs = [] \<longleftrightarrow> xs = []"
  using length_sort [of f xs] by (metis length_0_conv)

lemma counter_empty:
  assumes "\<forall>t. valid_target living lbl t \<longrightarrow> votes_for v t = 0"
  shows "count_ballots v living lbl [] = []"
proof (cases "count_ballots v living lbl []")
  case (Cons p d)
  then have "(fst p, snd p) \<in> set (count_ballots v living lbl [])"
    by simp
  then show ?thesis
    using assms unfolding counter_entry by auto
qed simp

lemma tally_empty:
  "count_ballots v living lbl [] = [] \<Longrightarrow> tally_votes_plurality v living allow lbl = Inr (None, [])"
  by (simp add: tally_votes_plurality_def)

lemma tally_returns:
  "\<exists>executed. tally_votes_plurality v living allow lbl = Inr (executed, count_ballots v living lbl [])"
proof (cases "count_ballots v living lbl [] = []")
  case True
  then show ?thesis by (simp add: tally_empty)
next
  case False
  then show ?thesis
    by (simp add: tally_nonempty Let_def sort_eq_Nil split: list.splits)
qed

lemma tally_executed:
  assumes "tally_votes_plurality v living allow lbl = Inr (Some n, counter)"
  shows "n \<in> set living"
proof (cases "count_ballots v living lbl [] = []")
  case True
  then show ?thesis using assms by (simp add: tally_empty)
next
  case False
  then show ?thesis
    using assms by (simp add: tally_nonempty Let_def sort_eq_Nil split: list.splits if_splits)
qed

lemma count_ballots_filter:
  "count_ballots (filter (\<lambda>b. valid_target living lbl (snd b)) v) living lbl acc =
   count_ballots v living lbl acc"
  by (induction v living lbl acc rule: count_ballots.induct) (auto simp: valid_target_def)

lemma scenario_counter:
  "count_ballots scenario_votes scenario_living NO_LYNCH [] = [(player_C, 2), (NO_LYNCH, 1)]"
  by (simp add: scenario_votes_def scenario_living_def dict_get_def players_differ)

text \<open>
  C2: when a target that is a living player and is not the no-lynch label has more
  ballots than every other legal target, \<open>tally_votes_plurality\<close> returns that target
  as the executed name, together with the count map.
\<close>

theorem tally_unique_maximum:
  assumes "t \<in> set living" and "t \<noteq> lbl"
    and "\<forall>t'. valid_target living lbl t' \<and> t' \<noteq> t \<longrightarrow> votes_for v t' < votes_for v t"
  shows "tally_votes_plurality v living allow lbl = Inr (Some t, count_ballots v living lbl [])"
proof -
  have "valid_target living lbl lbl"
    by (simp add: valid_target_def)
  then have "votes_for v lbl < votes_for v t"
    using assms(2,3) by blast
  then have pos: "0 < votes_for v t"
    by simp
  have "valid_target living lbl t"
    using assms(1) by (simp add: valid_target_def)
  then show ?thesis
    using tally_unique_top [OF _ assms(3) pos, of allow] assms(1,2) by simp
qed

theorem tally_unique_maximum_witness:
  "player_C \<in> set scenario_living \<and> player_C \<noteq> NO_LYNCH \<and>
   votes_for scenario_votes player_C = 2 \<and> votes_for scenario_votes NO_LYNCH = 1 \<and>
   tally_votes_plurality scenario_votes scenario_living True NO_LYNCH =
     Inr (Some player_C, [(player_C, 2), (NO_LYNCH, 1)])"
proof -
  have h1: "player_C \<in> set scenario_living"
    by (simp add: scenario_living_def)
  have h2: "player_C \<noteq> NO_LYNCH"
    by (simp add: players_differ)
  have h3: "\<forall>t'. valid_target scenario_living NO_LYNCH t' \<and> t' \<noteq> player_C \<longrightarrow>
              votes_for scenario_votes t' < votes_for scenario_votes player_C"
    by (auto simp: valid_target_def votes_for_def scenario_votes_def scenario_living_def
        players_differ)
  have n: "votes_for scenario_votes player_C = 2 \<and> votes_for scenario_votes NO_LYNCH = 1"
    by (simp add: votes_for_def scenario_votes_def players_differ)
  show ?thesis
    using tally_unique_maximum [OF h1 h2 h3, of True] h1 h2 n scenario_counter by simp
qed

text \<open>
  C3: when two different legal targets have the same number of ballots and no legal
  target has more, whichever names they are, or when \<open>allow_no_lynch\<close> is set and the
  no-lynch label has more ballots than every other legal target,
  \<open>tally_votes_plurality\<close> returns no executed name.
\<close>

theorem tally_tie_or_no_lynch:
  assumes "(\<exists>t1 t2. t1 \<noteq> t2 \<and> valid_target living lbl t1 \<and> valid_target living lbl t2 \<and>
              votes_for v t1 = votes_for v t2 \<and>
              (\<forall>t. valid_target living lbl t \<longrightarrow> votes_for v t \<le> votes_for v t1)) \<or>
           (allow \<and> (\<forall>t. valid_target living lbl t \<and> t \<noteq> lbl \<longrightarrow> votes_for v t < votes_for v lbl))"
  shows "tally_votes_plurality v living allow lbl = Inr (None, count_ballots v living lbl [])"
  using assms
proof (elim disjE exE conjE)
  fix t1 t2
  let ?counter = "count_ballots v living lbl []"
  let ?N = "int (votes_for v t1)"
  assume ne: "t1 \<noteq> t2" and v1: "valid_target living lbl t1" and v2: "valid_target living lbl t2"
    and eq: "votes_for v t1 = votes_for v t2"
    and mx: "\<forall>t. valid_target living lbl t \<longrightarrow> votes_for v t \<le> votes_for v t1"
  show ?thesis
  proof (cases "votes_for v t1 = 0")
    case True
    then have "?counter = []"
      using mx by (intro counter_empty) auto
    then show ?thesis
      by (simp add: tally_empty)
  next
    case False
    then have in1: "(t1, ?N) \<in> set ?counter" and in2: "(t2, ?N) \<in> set ?counter"
      using v1 v2 eq by (simp_all add: counter_entry)
    then have cne: "?counter \<noteq> []"
      by auto
    have "c \<le> ?N" if "c \<in> set (map snd ?counter)" for c
    proof -
      have "c \<in> snd ` set ?counter"
        using that by simp
      then obtain p where "p \<in> set ?counter" and "c = snd p"
        by blast
      then obtain k where "(k, c) \<in> set ?counter"
        by (metis prod.collapse)
      then show ?thesis
        using mx by (simp add: counter_entry)
    qed
    moreover have "?N \<in> set (map snd ?counter)"
      using in1 by force
    ultimately have max: "Max (set (map snd ?counter)) = ?N"
      by (intro Max_eqI) auto
    let ?top = "sort (map fst (filter (\<lambda>(n, c). c = ?N) ?counter))"
    have "t1 \<in> set ?top" and "t2 \<in> set ?top"
      using in1 in2 by force+
    then have "length ?top \<noteq> 1"
      using ne by (cases ?top) auto
    then show ?thesis
      using cne max by (simp add: tally_nonempty Let_def)
  qed
next
  let ?counter = "count_ballots v living lbl []"
  assume allow: allow
    and mx: "\<forall>t. valid_target living lbl t \<and> t \<noteq> lbl \<longrightarrow> votes_for v t < votes_for v lbl"
  have vl: "valid_target living lbl lbl"
    by (simp add: valid_target_def)
  show ?thesis
  proof (cases "votes_for v lbl = 0")
    case True
    then have "\<forall>t. valid_target living lbl t \<longrightarrow> votes_for v t = 0"
      using mx by force
    then have "?counter = []"
      by (rule counter_empty)
    then show ?thesis
      by (simp add: tally_empty)
  next
    case False
    then have "0 < votes_for v lbl"
      by simp
    then show ?thesis
      using tally_unique_top [OF vl mx, of allow] allow by simp
  qed
qed

theorem tally_tie_or_no_lynch_witness:
  "player_A \<noteq> player_B \<and>
   votes_for tie_votes player_A = 1 \<and> votes_for tie_votes player_B = 1 \<and>
   tally_votes_plurality tie_votes [player_A, player_B] True NO_LYNCH =
     Inr (None, [(player_B, 1), (player_A, 1)]) \<and>
   votes_for no_lynch_votes NO_LYNCH = 2 \<and> votes_for no_lynch_votes player_A = 1 \<and>
   tally_votes_plurality no_lynch_votes scenario_living True NO_LYNCH =
     Inr (None, [(NO_LYNCH, 2), (player_A, 1)])"
proof -
  have tie: "\<exists>t1 t2. t1 \<noteq> t2 \<and> valid_target [player_A, player_B] NO_LYNCH t1 \<and>
      valid_target [player_A, player_B] NO_LYNCH t2 \<and>
      votes_for tie_votes t1 = votes_for tie_votes t2 \<and>
      (\<forall>t. valid_target [player_A, player_B] NO_LYNCH t \<longrightarrow> votes_for tie_votes t \<le> votes_for tie_votes t1)"
    by (intro exI [of _ player_A] exI [of _ player_B])
       (auto simp: valid_target_def votes_for_def tie_votes_def players_differ)
  have top: "True \<and> (\<forall>t. valid_target scenario_living NO_LYNCH t \<and> t \<noteq> NO_LYNCH \<longrightarrow>
      votes_for no_lynch_votes t < votes_for no_lynch_votes NO_LYNCH)"
    by (auto simp: valid_target_def votes_for_def no_lynch_votes_def scenario_living_def
        players_differ)
  have c1: "count_ballots tie_votes [player_A, player_B] NO_LYNCH [] = [(player_B, 1), (player_A, 1)]"
    by (simp add: tie_votes_def dict_get_def players_differ)
  have c2: "count_ballots no_lynch_votes scenario_living NO_LYNCH [] = [(NO_LYNCH, 2), (player_A, 1)]"
    by (simp add: no_lynch_votes_def scenario_living_def dict_get_def players_differ)
  have n: "votes_for tie_votes player_A = 1 \<and> votes_for tie_votes player_B = 1 \<and>
     votes_for no_lynch_votes NO_LYNCH = 2 \<and> votes_for no_lynch_votes player_A = 1"
    by (simp add: votes_for_def tie_votes_def no_lynch_votes_def players_differ)
  have r1: "tally_votes_plurality tie_votes [player_A, player_B] True NO_LYNCH =
      Inr (None, count_ballots tie_votes [player_A, player_B] NO_LYNCH [])"
    using tie by (intro tally_tie_or_no_lynch disjI1)
  have r2: "tally_votes_plurality no_lynch_votes scenario_living True NO_LYNCH =
      Inr (None, count_ballots no_lynch_votes scenario_living NO_LYNCH [])"
    using top by (intro tally_tie_or_no_lynch disjI2)
  show ?thesis
    using r1 r2 c1 c2 n players_differ(1) by simp
qed

text \<open>
  C7: \<open>tally_votes_plurality\<close> always returns the count map built by its loop. In that
  map a legal target with at least one ballot has the number of its ballots, and no
  other name has an entry, so a ballot for a name that is neither living nor the
  no-lynch label adds to no count, and every other ballot adds one to the count of
  its target. Leaving the ballots with illegal targets out changes nothing. When no
  ballot has a legal target, the result is no executed name and the empty count map.
\<close>

theorem tally_counts_valid_ballots:
  "(\<exists>executed. tally_votes_plurality v living allow lbl = Inr (executed, count_ballots v living lbl [])) \<and>
   map_of (count_ballots v living lbl []) t =
     (if valid_target living lbl t \<and> 0 < votes_for v t then Some (int (votes_for v t)) else None) \<and>
   distinct (map fst (count_ballots v living lbl [])) \<and>
   count_ballots (filter (\<lambda>b. valid_target living lbl (snd b)) v) living lbl [] =
     count_ballots v living lbl [] \<and>
   (filter (\<lambda>b. valid_target living lbl (snd b)) v = [] \<longrightarrow>
      tally_votes_plurality v living allow lbl = Inr (None, []))"
proof -
  have "count_ballots v living lbl [] = []"
    if "filter (\<lambda>b. valid_target living lbl (snd b)) v = []"
    using count_ballots_filter [of living lbl v "[]"] that by simp
  then show ?thesis
    using tally_returns [of v living allow lbl]
    by (simp add: counter_lookup counter_distinct count_ballots_filter tally_empty)
qed

theorem tally_counts_valid_ballots_witness:
  "filter (\<lambda>b. valid_target scenario_living NO_LYNCH (snd b)) stray_votes = [] \<and>
   tally_votes_plurality stray_votes scenario_living True NO_LYNCH = Inr (None, [])"
proof -
  have h: "filter (\<lambda>b. valid_target scenario_living NO_LYNCH (snd b)) stray_votes = []"
    by (simp add: stray_votes_def valid_target_def scenario_living_def players_differ)
  show ?thesis
    using tally_counts_valid_ballots [of stray_votes scenario_living True NO_LYNCH] h by simp
qed

text \<open>
  C10: \<open>tally_votes_plurality\<close> raises nothing, and a name it returns as executed is
  in the list of living players it was given, whatever the ballots, the label and
  the flag \<open>allow_no_lynch\<close>; a no-lynch label that is not a living player is never
  returned as executed.
\<close>

theorem tally_executed_is_living:
  "(\<exists>r. tally_votes_plurality v living allow lbl = Inr r) \<and>
   (\<forall>n counter. tally_votes_plurality v living allow lbl = Inr (Some n, counter) \<longrightarrow> n \<in> set living) \<and>
   (lbl \<notin> set living \<longrightarrow> (\<forall>counter. tally_votes_plurality v living allow lbl \<noteq> Inr (Some lbl, counter)))"
  using tally_returns [of v living allow lbl] tally_executed [of v living allow lbl]
  by auto

theorem tally_executed_is_living_witness:
  "tally_votes_plurality scenario_votes scenario_living True NO_LYNCH =
     Inr (Some player_C, [(player_C, 2), (NO_LYNCH, 1)]) \<and>
   player_C \<in> set scenario_living \<and>
   NO_LYNCH \<notin> set scenario_living \<and>
   tally_votes_plurality no_lynch_votes scenario_living False NO_LYNCH \<noteq>
     Inr (Some NO_LYNCH, [(NO_LYNCH, 2), (player_A, 1)])"
proof -
  have "player_C \<in> set scenario_living"
    by (simp add: scenario_living_def)
  then have e: "tally_votes_plurality scenario_votes scenario_living True NO_LYNCH =
     Inr (Some player_C, [(player_C, 2), (NO_LYNCH, 1)])"
    by (simp add: tally_votes_plurality_def scenario_counter players_differ)
  have l: "NO_LYNCH \<notin> set scenario_living"
    by (simp add: scenario_living_def players_differ)
  show ?thesis
    using tally_executed_is_living [of scenario_votes scenario_living True NO_LYNCH]
      tally_executed_is_living [of no_lynch_votes scenario_living False NO_LYNCH] e l
    by blast
qed

section \<open>Discussion\<close>

lemma length_FALLBACKS: "length FALLBACKS = 7"
  by (simp add: FALLBACKS_def)

lemma drawn_fallback_mem: "drawn_fallback g i \<in> set FALLBACKS"
  unfolding drawn_fallback_def using length_FALLBACKS by (intro nth_mem) simp

lemma choice_FALLBACKS: "choice FALLBACKS g = Inr (drawn_fallback g 0, \<lambda>i. g (Suc i))"
proof -
  have "FALLBACKS \<noteq> []"
    using length_FALLBACKS by auto
  then show ?thesis
    by (simp add: choice_def randbelow_def drawn_fallback_def)
qed

lemma drawn_fallback_shift: "drawn_fallback (\<lambda>i. g (i + k)) j = drawn_fallback g (j + k)"
  by (simp add: drawn_fallback_def)

lemma drawn_fallback_Suc: "drawn_fallback (\<lambda>i. g (Suc i)) j = drawn_fallback g (Suc j)"
  by (simp add: drawn_fallback_def)

lemma anti_repeat_line_str:
  "anti_repeat_line gs n (JStr l) g =
     (if turned_down gs (n, l) then Inr (drawn_fallback g 0, \<lambda>i. g (Suc i))
      else Inr (strip l, g))"
proof (cases "l = []")
  case True
  have "strip [] = []"
    by (simp add: strip_def)
  then show ?thesis
    using True by (simp add: anti_repeat_line_def turned_down_def choice_FALLBACKS)
next
  case False
  then show ?thesis
    by (simp add: anti_repeat_line_def turned_down_def choice_FALLBACKS Let_def)
qed

lemma fix_pairs_exact:
  "\<exists>fixed.
     fix_pairs gs (map (\<lambda>p. (fst p, JStr (snd p))) ps) out g =
       Inr (out @ fixed, \<lambda>i. g (i + length (filter (turned_down gs) ps))) \<and>
     map fst fixed = map fst ps \<and>
     (\<forall>i<length ps. snd (fixed ! i) =
        (if turned_down gs (ps ! i)
         then drawn_fallback g (length (filter (turned_down gs) (take i ps)))
         else strip (snd (ps ! i))))"
proof (induction ps arbitrary: out g)
  case Nil
  show ?case by simp
next
  case (Cons p ps)
  obtain n l where p: "p = (n, l)"
    by (cases p)
  show ?case
  proof (cases "turned_down gs p")
    case True
    let ?g1 = "\<lambda>i. g (Suc i)"
    let ?f = "drawn_fallback g 0"
    obtain fixed where
      r: "fix_pairs gs (map (\<lambda>p. (fst p, JStr (snd p))) ps) (out @ [(n, ?f)]) ?g1 =
            Inr ((out @ [(n, ?f)]) @ fixed, \<lambda>i. ?g1 (i + length (filter (turned_down gs) ps)))"
      and m: "map fst fixed = map fst ps"
      and s: "\<forall>i<length ps. snd (fixed ! i) =
        (if turned_down gs (ps ! i)
         then drawn_fallback ?g1 (length (filter (turned_down gs) (take i ps)))
         else strip (snd (ps ! i)))"
      using Cons.IH [of "out @ [(n, ?f)]" ?g1] by blast
    have a: "anti_repeat_line gs n (JStr l) g = Inr (?f, ?g1)"
      using True p by (simp add: anti_repeat_line_str)
    have 1: "fix_pairs gs (map (\<lambda>p. (fst p, JStr (snd p))) (p # ps)) out g =
        Inr (out @ ((n, ?f) # fixed), \<lambda>i. g (i + length (filter (turned_down gs) (p # ps))))"
      using p a r True by simp
    have 2: "map fst ((n, ?f) # fixed) = map fst (p # ps)"
      using p m by simp
    have 3: "\<forall>i<length (p # ps). snd (((n, ?f) # fixed) ! i) =
        (if turned_down gs ((p # ps) ! i)
         then drawn_fallback g (length (filter (turned_down gs) (take i (p # ps))))
         else strip (snd ((p # ps) ! i)))"
    proof (intro allI impI)
      fix i
      assume i: "i < length (p # ps)"
      show "snd (((n, ?f) # fixed) ! i) =
        (if turned_down gs ((p # ps) ! i)
         then drawn_fallback g (length (filter (turned_down gs) (take i (p # ps))))
         else strip (snd ((p # ps) ! i)))"
      proof (cases i)
        case 0
        then show ?thesis
          using True by simp
      next
        case (Suc k)
        then have "k < length ps"
          using i by simp
        then have "snd (fixed ! k) =
          (if turned_down gs (ps ! k)
           then drawn_fallback ?g1 (length (filter (turned_down gs) (take k ps)))
           else strip (snd (ps ! k)))"
          using s by blast
        then show ?thesis
          using Suc True by (simp add: drawn_fallback_Suc)
      qed
    qed
    show ?thesis
      using 1 2 3 by blast
  next
    case False
    let ?f = "strip l"
    obtain fixed where
      r: "fix_pairs gs (map (\<lambda>p. (fst p, JStr (snd p))) ps) (out @ [(n, ?f)]) g =
            Inr ((out @ [(n, ?f)]) @ fixed, \<lambda>i. g (i + length (filter (turned_down gs) ps)))"
      and m: "map fst fixed = map fst ps"
      and s: "\<forall>i<length ps. snd (fixed ! i) =
        (if turned_down gs (ps ! i)
         then drawn_fallback g (length (filter (turned_down gs) (take i ps)))
         else strip (snd (ps ! i)))"
      using Cons.IH [of "out @ [(n, ?f)]" g] by blast
    have a: "anti_repeat_line gs n (JStr l) g = Inr (?f, g)"
      using False p by (simp add: anti_repeat_line_str)
    have 1: "fix_pairs gs (map (\<lambda>p. (fst p, JStr (snd p))) (p # ps)) out g =
        Inr (out @ ((n, ?f) # fixed), \<lambda>i. g (i + length (filter (turned_down gs) (p # ps))))"
      using p a r False by simp
    have 2: "map fst ((n, ?f) # fixed) = map fst (p # ps)"
      using p m by simp
    have 3: "\<forall>i<length (p # ps). snd (((n, ?f) # fixed) ! i) =
        (if turned_down gs ((p # ps) ! i)
         then drawn_fallback g (length (filter (turned_down gs) (take i (p # ps))))
         else strip (snd ((p # ps) ! i)))"
    proof (intro allI impI)
      fix i
      assume i: "i < length (p # ps)"
      show "snd (((n, ?f) # fixed) ! i) =
        (if turned_down gs ((p # ps) ! i)
         then drawn_fallback g (length (filter (turned_down gs) (take i (p # ps))))
         else strip (snd ((p # ps) ! i)))"
      proof (cases i)
        case 0
        then show ?thesis
          using False p by simp
      next
        case (Suc k)
        then have "k < length ps"
          using i by simp
        then have "snd (fixed ! k) =
          (if turned_down gs (ps ! k)
           then drawn_fallback g (length (filter (turned_down gs) (take k ps)))
           else strip (snd (ps ! k)))"
          using s by blast
        then show ?thesis
          using Suc False by simp
      qed
    qed
    show ?thesis
      using 1 2 3 by blast
  qed
qed

lemma backfill_exact:
  "\<exists>fills.
     backfill ns spoken out g = Inr (out @ fills, \<lambda>i. g (i + length fills)) \<and>
     map fst fills = filter (\<lambda>n. n \<noteq> HUMAN \<and> n \<notin> spoken) ns \<and>
     (\<forall>j<length fills. snd (fills ! j) = drawn_fallback g j)"
proof (induction ns arbitrary: out g)
  case Nil
  show ?case by simp
next
  case (Cons nm ns)
  show ?case
  proof (cases "nm \<noteq> HUMAN \<and> nm \<notin> spoken")
    case True
    let ?g1 = "\<lambda>i. g (Suc i)"
    let ?f = "drawn_fallback g 0"
    obtain fills where
      r: "backfill ns spoken (out @ [(nm, ?f)]) ?g1 =
            Inr ((out @ [(nm, ?f)]) @ fills, \<lambda>i. ?g1 (i + length fills))"
      and m: "map fst fills = filter (\<lambda>n. n \<noteq> HUMAN \<and> n \<notin> spoken) ns"
      and s: "\<forall>j<length fills. snd (fills ! j) = drawn_fallback ?g1 j"
      using Cons.IH [of "out @ [(nm, ?f)]" ?g1] by blast
    have 1: "backfill (nm # ns) spoken out g =
        Inr (out @ ((nm, ?f) # fills), \<lambda>i. g (i + length ((nm, ?f) # fills)))"
      using True r by (simp add: choice_FALLBACKS)
    have 2: "map fst ((nm, ?f) # fills) = filter (\<lambda>n. n \<noteq> HUMAN \<and> n \<notin> spoken) (nm # ns)"
      using True m by simp
    have 3: "\<forall>j<length ((nm, ?f) # fills). snd (((nm, ?f) # fills) ! j) = drawn_fallback g j"
    proof (intro allI impI)
      fix j
      assume j: "j < length ((nm, ?f) # fills)"
      show "snd (((nm, ?f) # fills) ! j) = drawn_fallback g j"
      proof (cases j)
        case 0
        then show ?thesis by simp
      next
        case (Suc k)
        then have "k < length fills"
          using j by simp
        then have "snd (fills ! k) = drawn_fallback ?g1 k"
          using s by blast
        then show ?thesis
          using Suc by (simp add: drawn_fallback_Suc)
      qed
    qed
    show ?thesis
      using 1 2 3 by blast
  next
    case False
    obtain fills where
      r: "backfill ns spoken out g = Inr (out @ fills, \<lambda>i. g (i + length fills))"
      and m: "map fst fills = filter (\<lambda>n. n \<noteq> HUMAN \<and> n \<notin> spoken) ns"
      and s: "\<forall>j<length fills. snd (fills ! j) = drawn_fallback g j"
      using Cons.IH [of out g] by blast
    have 1: "backfill (nm # ns) spoken out g = Inr (out @ fills, \<lambda>i. g (i + length fills))"
      using False r by auto
    have 2: "map fst fills = filter (\<lambda>n. n \<noteq> HUMAN \<and> n \<notin> spoken) (nm # ns)"
      using False m by auto
    show ?thesis
      using 1 2 s by blast
  qed
qed

lemma alive_ai_iff: "n \<in> set (alive_ai gs) \<longleftrightarrow> n \<in> set (alive_players gs) \<and> n \<noteq> HUMAN"
  by (auto simp: alive_ai_def)

lemma is_str_iff: "is_str x \<longleftrightarrow> (\<exists>s. x = JStr s)"
  by (cases x) simp_all

lemma accept_step:
  assumes "well_typed_item gs (JObj obj)"
  shows "(case json_get obj NAME of
            JStr n \<Rightarrow>
              if n \<in> set (alive_players gs) \<and> n \<noteq> HUMAN \<and> truthy (json_get obj LINE)
              then pairs @ [(n, json_get obj LINE)]
              else pairs
          | _ \<Rightarrow> pairs) =
         pairs @ map (\<lambda>p. (fst p, JStr (snd p))) (proposed_line gs (JObj obj))"
proof (cases "json_get obj NAME")
  case (JStr n)
  show ?thesis
  proof (cases "n \<in> set (alive_ai gs) \<and> truthy (json_get obj LINE)")
    case True
    then have "is_str (json_get obj LINE)"
      using assms JStr by (simp add: names_living_ai_def)
    then obtain l where l: "json_get obj LINE = JStr l"
      using is_str_iff by blast
    then have "l \<noteq> []"
      using True by simp
    then show ?thesis
      using JStr l True by (simp add: proposed_line_def alive_ai_iff)
  next
    case False
    then have "proposed_line gs (JObj obj) = []"
      using JStr by (cases "json_get obj LINE") (auto simp: proposed_line_def)
    then show ?thesis
      using JStr False by (auto simp: alive_ai_iff)
  qed
qed (simp_all add: proposed_line_def)

lemma accept_lines_well_typed:
  "list_all (well_typed_item gs) items \<Longrightarrow>
   accept_lines gs items pairs =
     Inr (pairs @ map (\<lambda>p. (fst p, JStr (snd p))) (concat (map (proposed_line gs) items)))"
proof (induction items arbitrary: pairs)
  case Nil
  show ?case by simp
next
  case (Cons item items)
  obtain obj where item: "item = JObj obj"
    using Cons.prems by (cases item) simp_all
  have wt: "well_typed_item gs (JObj obj)" and rest: "list_all (well_typed_item gs) items"
    using Cons.prems item by simp_all
  let ?pairs = "pairs @ map (\<lambda>p. (fst p, JStr (snd p))) (proposed_line gs (JObj obj))"
  have "accept_lines gs (item # items) pairs = accept_lines gs items ?pairs"
    unfolding item accept_lines.simps Let_def accept_step [OF wt] ..
  also have "\<dots> = Inr (?pairs @
      map (\<lambda>p. (fst p, JStr (snd p))) (concat (map (proposed_line gs) items)))"
    using Cons.IH [OF rest] .
  finally show ?case
    using item by simp
qed

lemma proposed_line_alive_ai: "p \<in> set (proposed_line gs item) \<Longrightarrow> fst p \<in> set (alive_ai gs)"
  by (auto simp: proposed_line_def split: json.splits if_splits)

lemma proposed_lines_alive_ai: "p \<in> set (proposed_lines gs data) \<Longrightarrow> fst p \<in> set (alive_ai gs)"
  using proposed_line_alive_ai
  by (fastforce simp: proposed_lines_def split: option.splits json.splits)

lemma accept_lines_answer:
  assumes "well_typed_answer gs data"
  shows "\<exists>items. py_iter (dict_get data CHARACTER_LINES (JList [])) = Inr items \<and>
     accept_lines gs items [] =
       Inr (map (\<lambda>p. (fst p, JStr (snd p))) (proposed_lines gs data))"
proof (cases "map_of data CHARACTER_LINES")
  case None
  then show ?thesis
    by (simp add: dict_get_def proposed_lines_def)
next
  case (Some x)
  then obtain items where x: "x = JList items" and wt: "list_all (well_typed_item gs) items"
    using assms by (cases x) (simp_all add: well_typed_answer_def)
  have "py_iter (dict_get data CHARACTER_LINES (JList [])) = Inr items"
    using Some x by (simp add: dict_get_def)
  moreover have "accept_lines gs items [] =
      Inr (map (\<lambda>p. (fst p, JStr (snd p))) (proposed_lines gs data))"
    using accept_lines_well_typed [OF wt, of "[]"] Some x by (simp add: proposed_lines_def)
  ultimately show ?thesis by blast
qed

lemma ensure_all_speak_exact:
  "\<exists>fixed fills.
     ensure_all_speak gs (map (\<lambda>p. (fst p, JStr (snd p))) ps) g =
       Inr (fixed @ fills, \<lambda>i. g (i + length (filter (turned_down gs) ps) + length fills)) \<and>
     map fst fixed = map fst ps \<and>
     (\<forall>i<length ps. snd (fixed ! i) =
        (if turned_down gs (ps ! i)
         then drawn_fallback g (length (filter (turned_down gs) (take i ps)))
         else strip (snd (ps ! i)))) \<and>
     map fst fills = filter (\<lambda>n. n \<notin> set (map fst ps)) (alive_ai gs) \<and>
     (\<forall>j<length fills. snd (fills ! j) =
        drawn_fallback g (length (filter (turned_down gs) ps) + j))"
proof -
  let ?js = "map (\<lambda>p. (fst p, JStr (snd p))) ps"
  let ?r = "length (filter (turned_down gs) ps)"
  let ?g1 = "\<lambda>i. g (i + ?r)"
  have sp: "set (map fst ?js) = set (map fst ps)"
    by (simp add: comp_def)
  obtain fixed where
    a: "fix_pairs gs ?js [] g = Inr ([] @ fixed, ?g1)"
    and m: "map fst fixed = map fst ps"
    and s: "\<forall>i<length ps. snd (fixed ! i) =
        (if turned_down gs (ps ! i)
         then drawn_fallback g (length (filter (turned_down gs) (take i ps)))
         else strip (snd (ps ! i)))"
    using fix_pairs_exact [of gs ps "[]" g] by blast
  obtain fills where
    b: "backfill (alive_players gs) (set (map fst ps)) fixed ?g1 =
          Inr (fixed @ fills, \<lambda>i. ?g1 (i + length fills))"
    and f: "map fst fills =
      filter (\<lambda>n. n \<noteq> HUMAN \<and> n \<notin> set (map fst ps)) (alive_players gs)"
    and t: "\<forall>j<length fills. snd (fills ! j) = drawn_fallback ?g1 j"
    using backfill_exact [of "alive_players gs" "set (map fst ps)" fixed ?g1] by blast
  have f': "map fst fills = filter (\<lambda>n. n \<notin> set (map fst ps)) (alive_ai gs)"
    using f by (simp add: alive_ai_def conj_commute)
  have t': "\<forall>j<length fills. snd (fills ! j) = drawn_fallback g (?r + j)"
    using t by (simp add: drawn_fallback_def add.commute)
  have "(\<lambda>i. ?g1 (i + length fills)) = (\<lambda>i. g (i + ?r + length fills))"
    by (simp add: ac_simps)
  then have "ensure_all_speak gs ?js g = Inr (fixed @ fills, \<lambda>i. g (i + ?r + length fills))"
    using a b sp by (simp add: ensure_all_speak_def)
  then show ?thesis
    using m s f' t' by blast
qed

lemma record_pairs_prints:
  "\<forall>p\<in>set pairs. stdout (transcript_entry p) = None \<Longrightarrow>
   \<exists>gs'. record_pairs stdout pairs gs = Inr gs' \<and>
     dialogue_history gs' = dialogue_history gs @ map transcript_entry pairs \<and>
     players gs' = players gs"
proof (induction pairs arbitrary: gs)
  case Nil
  show ?case by simp
next
  case (Cons p pairs)
  obtain n l where p: "p = (n, l)"
    by (cases p)
  let ?gs1 = "gs\<lparr>dialogue_history := dialogue_history gs @ [transcript_entry (n, l)],
                last_line_by_name := dict_set n l (last_line_by_name gs)\<rparr>"
  have rest: "\<forall>p\<in>set pairs. stdout (transcript_entry p) = None"
    using Cons.prems by simp
  obtain gs' where r: "record_pairs stdout pairs ?gs1 = Inr gs'"
    and h: "dialogue_history gs' = dialogue_history ?gs1 @ map transcript_entry pairs"
    and q: "players gs' = players ?gs1"
    using Cons.IH [OF rest, of ?gs1] by blast
  have "stdout (transcript_entry (n, l)) = None"
    using Cons.prems p by simp
  then have "record_pairs stdout (p # pairs) gs = Inr gs'"
    using p r by simp
  then show ?case
    using h q p by simp
qed

lemma count_list_distinct: "distinct xs \<Longrightarrow> count_list xs x = (if x \<in> set xs then 1 else 0)"
  by (induction xs) auto

lemma prints_turnD:
  assumes "prints_turn stdout gs data" and "n \<in> set (alive_ai gs)"
    and "l \<in> set FALLBACKS \<or> (\<exists>p\<in>set (proposed_lines gs data). fst p = n \<and> l = strip (snd p))"
  shows "stdout (transcript_entry (n, l)) = None"
proof -
  have "\<forall>l\<in>set (FALLBACKS @
      map (\<lambda>p. strip (snd p)) (filter (\<lambda>p. fst p = n) (proposed_lines gs data))).
      stdout (transcript_entry (n, l)) = None"
    using assms(1,2) unfolding prints_turn_def list_all_iff by blast
  moreover have "l \<in> set (FALLBACKS @
      map (\<lambda>p. strip (snd p)) (filter (\<lambda>p. fst p = n) (proposed_lines gs data)))"
    using assms(3) by auto
  ultimately show ?thesis by blast
qed

lemma turn_all_speak:
  assumes sub: "set (map fst fixed) \<subseteq> set ai"
    and f: "map fst fills = filter (\<lambda>n. n \<notin> set (map fst fixed)) ai"
  shows "set (map fst (fixed @ fills)) = set ai"
proof -
  have "set (map fst (fixed @ fills)) = set (map fst fixed) \<union> set (map fst fills)"
    by simp
  also have "\<dots> = set (map fst fixed) \<union> (set ai - set (map fst fixed))"
    unfolding f by auto
  also have "\<dots> = set ai"
    using sub by auto
  finally show ?thesis .
qed

lemma turn_once:
  assumes f: "map fst fills = filter (\<lambda>n. n \<notin> set (map fst fixed)) ai"
    and d1: "distinct (map fst fixed)" and d2: "distinct ai" and n: "n \<in> set ai"
  shows "count_list (map fst (fixed @ fills)) n = 1"
proof -
  have d3: "distinct (map fst fills)"
    unfolding f using d2 by simp
  have "count_list (map fst (fixed @ fills)) n =
      count_list (map fst fixed) n + count_list (map fst fills) n"
    by simp
  also have "\<dots> = (if n \<in> set (map fst fixed) then 1 else 0) +
      (if n \<in> set (map fst fills) then 1 else 0)"
    using d1 d3 by (simp only: count_list_distinct)
  also have "\<dots> = 1"
    using n unfolding f by auto
  finally show ?thesis .
qed

lemma alive_players_sample_game: "alive_players sample_game = names"
  by (simp add: alive_players_def sample_game_def comp_def)

lemma alive_ai_sample_game: "alive_ai sample_game = tl names"
  by (simp add: alive_ai_def alive_players_sample_game names_def HUMAN_def)

lemma minsu_alive_ai: "minsu \<in> set (alive_ai sample_game)"
  by (simp add: alive_ai_sample_game names_def minsu_def)

lemma strip_ascii_A: "strip (ascii ''A'') = ascii ''A''" "strip (ascii ''B'') = ascii ''B''"
  by (simp_all add: strip_def ascii_def py_isspace_def)

lemma key_names: "NAME \<noteq> LINE" "LINE \<noteq> NAME"
  by (simp_all add: NAME_def LINE_def ascii_def)

lemma not_turned_down_sample:
  "\<not> turned_down sample_game (minsu, ascii ''A'')"
  "\<not> turned_down sample_game (minsu, ascii ''B'')"
  by (simp_all add: turned_down_def strip_ascii_A dict_get_def sample_game_def new_GameState_def)
     (simp_all add: GENERIC_PHRASES_def ascii_def)

lemma proposed_repeated_lines:
  "proposed_lines sample_game repeated_lines = [(minsu, ascii ''A''), (minsu, ascii ''B'')]"
  using minsu_alive_ai
  by (simp add: proposed_lines_def repeated_lines_def proposed_line_def json_get_def dict_get_def
      key_names ascii_def)

lemma proposed_single_lines:
  "proposed_lines sample_game single_lines = [(minsu, ascii ''A'')]"
  using minsu_alive_ai
  by (simp add: proposed_lines_def single_lines_def proposed_line_def json_get_def dict_get_def
      key_names ascii_def)

lemma well_typed_repeated_lines: "well_typed_answer sample_game repeated_lines"
  by (simp add: well_typed_answer_def repeated_lines_def json_get_def dict_get_def key_names)

lemma well_typed_single_lines: "well_typed_answer sample_game single_lines"
  by (simp add: well_typed_answer_def single_lines_def json_get_def dict_get_def key_names)

lemma prints_any_stdout: "prints_turn any_stdout gs data"
  by (simp add: prints_turn_def any_stdout_def list_all_iff)

lemma day_discuss_number_line:
  "day_discuss stdout sample_game number_line g = Inl (AttributeError, sample_game)"
proof -
  have "accept_lines sample_game
      [JObj [(NAME, JStr minsu), (LINE, JInt 5)]] [] = Inr [(minsu, JInt 5)]"
    using minsu_alive_ai by (simp add: json_get_def dict_get_def key_names alive_ai_iff)
  moreover have "ensure_all_speak sample_game [(minsu, JInt 5)] g = Inl AttributeError"
    by (simp add: ensure_all_speak_def anti_repeat_line_def)
  ultimately show ?thesis
    by (simp add: day_discuss_def number_line_def dict_get_def)
qed

lemma day_discuss_surrogate_line:
  "map_sum (map_prod id dialogue_history) (dialogue_history \<circ> fst)
     (day_discuss utf8_stdout sample_game surrogate_lines (\<lambda>_. 0)) =
   Inl (UnicodeEncodeError, [transcript_entry (minsu, ascii ''A'')])"
proof -
  have ai: "[0xC9C0, 0xC5F0] \<in> set (alive_ai sample_game)"
    by (simp add: alive_ai_sample_game names_def)
  have it: "py_iter (dict_get surrogate_lines CHARACTER_LINES (JList [])) =
      Inr [JObj [(NAME, JStr minsu), (LINE, JStr (ascii ''A''))],
           JObj [(NAME, JStr [0xC9C0, 0xC5F0]), (LINE, JStr [0xD83D])]]"
    by (simp add: surrogate_lines_def dict_get_def)
  have acc: "accept_lines sample_game
      [JObj [(NAME, JStr minsu), (LINE, JStr (ascii ''A''))],
       JObj [(NAME, JStr [0xC9C0, 0xC5F0]), (LINE, JStr [0xD83D])]] [] =
      Inr [(minsu, JStr (ascii ''A'')), ([0xC9C0, 0xC5F0], JStr [0xD83D])]"
    using minsu_alive_ai ai
    by (simp add: json_get_def dict_get_def key_names alive_ai_iff) (simp add: ascii_def)
  have st: "strip [0xD83D] = [0xD83D]"
    by (simp add: strip_def py_isspace_def)
  have nt: "\<not> turned_down sample_game ([0xC9C0, 0xC5F0], [0xD83D])"
    by (simp add: turned_down_def st dict_get_def sample_game_def new_GameState_def)
       (simp add: GENERIC_PHRASES_def)
  have fx: "fix_pairs sample_game
      [(minsu, JStr (ascii ''A'')), ([0xC9C0, 0xC5F0], JStr [0xD83D])] [] (\<lambda>_. 0) =
      Inr ([(minsu, ascii ''A''), ([0xC9C0, 0xC5F0], [0xD83D])], \<lambda>_. 0)"
    by (simp add: anti_repeat_line_str not_turned_down_sample nt strip_ascii_A st)
  obtain fills where bf: "backfill (alive_players sample_game)
      (set (map fst [(minsu, JStr (ascii ''A'')), ([0xC9C0, 0xC5F0], JStr [0xD83D])]))
      [(minsu, ascii ''A''), ([0xC9C0, 0xC5F0], [0xD83D])] (\<lambda>_. 0) =
      Inr ([(minsu, ascii ''A''), ([0xC9C0, 0xC5F0], [0xD83D])] @ fills,
           \<lambda>i. (\<lambda>_. 0) (i + length fills))"
    using backfill_exact by blast
  have ens: "ensure_all_speak sample_game
      [(minsu, JStr (ascii ''A'')), ([0xC9C0, 0xC5F0], JStr [0xD83D])] (\<lambda>_. 0) =
      Inr ((minsu, ascii ''A'') # ([0xC9C0, 0xC5F0], [0xD83D]) # fills, \<lambda>_. 0)"
    unfolding ensure_all_speak_def Let_def fx using bf by simp
  have p1: "utf8_stdout (transcript_entry (minsu, ascii ''A'')) = None"
    by (simp add: utf8_stdout_def transcript_entry_def minsu_def ascii_def)
  have p2: "utf8_stdout (transcript_entry ([0xC9C0, 0xC5F0], [0xD83D])) = Some UnicodeEncodeError"
    by (simp add: utf8_stdout_def transcript_entry_def)
  have "record_pairs utf8_stdout
      ((minsu, ascii ''A'') # ([0xC9C0, 0xC5F0], [0xD83D]) # fills) sample_game =
      Inl (UnicodeEncodeError,
        sample_game\<lparr>dialogue_history :=
            dialogue_history sample_game @ [transcript_entry (minsu, ascii ''A'')],
          last_line_by_name := dict_set minsu (ascii ''A'') (last_line_by_name sample_game)\<rparr>)"
    by (simp add: p1 p2)
  then have "day_discuss utf8_stdout sample_game surrogate_lines (\<lambda>_. 0) =
      Inl (UnicodeEncodeError,
        sample_game\<lparr>dialogue_history :=
            dialogue_history sample_game @ [transcript_entry (minsu, ascii ''A'')],
          last_line_by_name := dict_set minsu (ascii ''A'') (last_line_by_name sample_game)\<rparr>)"
    by (simp only: day_discuss_def it acc ens sum.case prod.case)
  moreover have "dialogue_history sample_game = []"
    by (simp add: sample_game_def new_GameState_def)
  ultimately show ?thesis
    by simp
qed

text \<open>
  C8, as stated, at the sample game and an answer of the service with two lines for
  the living player \<open>minsu\<close>: the turn adds two transcript entries of that player, not
  one, before the fallback entries of the five players the answer left out.
\<close>

theorem day_discuss_repeated_speaker:
  "minsu \<in> set (alive_ai sample_game) \<and>
   well_typed_answer sample_game repeated_lines \<and>
   map_sum fst (dialogue_history \<circ> fst)
     (day_discuss any_stdout sample_game repeated_lines (\<lambda>_. 0)) =
     Inr (map transcript_entry repeated_turn) \<and>
   count_list (map fst repeated_turn) minsu = 2"
proof -
  have it: "py_iter (dict_get repeated_lines CHARACTER_LINES (JList [])) =
      Inr [JObj [(NAME, JStr minsu), (LINE, JStr (ascii ''A''))],
           JObj [(NAME, JStr minsu), (LINE, JStr (ascii ''B''))]]"
    by (simp add: repeated_lines_def dict_get_def)
  have acc: "accept_lines sample_game
      [JObj [(NAME, JStr minsu), (LINE, JStr (ascii ''A''))],
       JObj [(NAME, JStr minsu), (LINE, JStr (ascii ''B''))]] [] =
      Inr [(minsu, JStr (ascii ''A'')), (minsu, JStr (ascii ''B''))]"
    using minsu_alive_ai
    by (simp add: json_get_def dict_get_def key_names alive_ai_iff) (simp add: ascii_def)
  have ens: "ensure_all_speak sample_game
      [(minsu, JStr (ascii ''A'')), (minsu, JStr (ascii ''B''))] (\<lambda>_. 0) =
      Inr (repeated_turn, \<lambda>_. 0)"
    by (simp add: ensure_all_speak_def anti_repeat_line_str not_turned_down_sample
        alive_players_sample_game repeated_turn_def strip_ascii_A)
       (simp add: names_def minsu_def HUMAN_def choice_FALLBACKS drawn_fallback_def)
  have "\<forall>p\<in>set repeated_turn. any_stdout (transcript_entry p) = None"
    by (simp add: any_stdout_def)
  then obtain gs' where rec: "record_pairs any_stdout repeated_turn sample_game = Inr gs'"
    and h: "dialogue_history gs' =
      dialogue_history sample_game @ map transcript_entry repeated_turn"
    using record_pairs_prints [of repeated_turn any_stdout sample_game] by blast
  have "day_discuss any_stdout sample_game repeated_lines (\<lambda>_. 0) = Inr (gs', \<lambda>_. 0)"
    by (simp only: day_discuss_def it acc ens rec sum.case prod.case)
  moreover have "dialogue_history sample_game = []"
    by (simp add: sample_game_def new_GameState_def)
  moreover have "count_list (map fst repeated_turn) minsu = 2"
    by (simp add: repeated_turn_def names_def minsu_def)
  ultimately show ?thesis
    using minsu_alive_ai well_typed_repeated_lines h by simp
qed

text \<open>
  C8, amended. Let the answer of the service have the expected types (\<open>day_discuss\<close>
  raises \<open>AttributeError\<close> or \<open>TypeError\<close> on other answers, as on \<open>number_line\<close> above,
  and then writes nothing), and let the standard output accept the entries of the
  turn. Then \<open>day_discuss\<close> returns, changes no player, and appends to the transcript
  one entry for each line the answer proposes, in the order of the answer, followed
  by one entry for each living AI player the proposed lines do not name, in the
  order of the roster. The line of an entry of the first kind is the proposed line,
  stripped, unless the anti-repetition filter turns it down; the lines that replace
  the lines turned down and then the lines of the players left out are the fallback
  phrases of the successive draws of the random source, which is returned advanced
  by that many draws. So the speakers of the turn are exactly the living AI players,
  each with at least one entry; each has exactly one entry when the names of the
  living players are distinct and the proposed lines name no player twice.
\<close>

theorem day_discuss_all_speak:
  assumes wt: "well_typed_answer gs data" and pr: "prints_turn stdout gs data"
  shows "\<exists>gs' g' props r fixed fills.
     props = proposed_lines gs data \<and> r = length (filter (turned_down gs) props) \<and>
     day_discuss stdout gs data g = Inr (gs', g') \<and>
     players gs' = players gs \<and>
     dialogue_history gs' = dialogue_history gs @ map transcript_entry (fixed @ fills) \<and>
     map fst fixed = map fst props \<and>
     (\<forall>i<length props. snd (fixed ! i) =
        (if turned_down gs (props ! i)
         then drawn_fallback g (length (filter (turned_down gs) (take i props)))
         else strip (snd (props ! i)))) \<and>
     map fst fills = filter (\<lambda>n. n \<notin> set (map fst props)) (alive_ai gs) \<and>
     (\<forall>j<length fills. snd (fills ! j) = drawn_fallback g (r + j)) \<and>
     set (map snd fills) \<subseteq> set FALLBACKS \<and>
     g' = (\<lambda>i. g (i + r + length fills)) \<and>
     set (map fst (fixed @ fills)) = set (alive_ai gs) \<and>
     (\<forall>n\<in>set (alive_ai gs). 1 \<le> count_list (map fst (fixed @ fills)) n) \<and>
     (distinct (alive_players gs) \<and> distinct (map fst props) \<longrightarrow>
        (\<forall>n\<in>set (alive_ai gs). count_list (map fst (fixed @ fills)) n = 1))"
proof -
  define props where "props = proposed_lines gs data"
  define r where "r = length (filter (turned_down gs) props)"
  obtain items where it: "py_iter (dict_get data CHARACTER_LINES (JList [])) = Inr items"
    and acc: "accept_lines gs items [] = Inr (map (\<lambda>p. (fst p, JStr (snd p))) props)"
    using accept_lines_answer [OF wt] unfolding props_def by blast
  obtain fixed fills where
    ens: "ensure_all_speak gs (map (\<lambda>p. (fst p, JStr (snd p))) props) g =
       Inr (fixed @ fills, \<lambda>i. g (i + r + length fills))"
    and m: "map fst fixed = map fst props"
    and s: "\<forall>i<length props. snd (fixed ! i) =
        (if turned_down gs (props ! i)
         then drawn_fallback g (length (filter (turned_down gs) (take i props)))
         else strip (snd (props ! i)))"
    and f: "map fst fills = filter (\<lambda>n. n \<notin> set (map fst props)) (alive_ai gs)"
    and t: "\<forall>j<length fills. snd (fills ! j) = drawn_fallback g (r + j)"
    using ensure_all_speak_exact [of gs props g] unfolding r_def by blast
  have len: "length fixed = length props"
    using m by (metis length_map)
  have f': "map fst fills = filter (\<lambda>n. n \<notin> set (map fst fixed)) (alive_ai gs)"
    using f m by simp
  have sub: "set (map fst fixed) \<subseteq> set (alive_ai gs)"
  proof
    fix n
    assume "n \<in> set (map fst fixed)"
    then have "n \<in> set (map fst props)"
      using m by simp
    then obtain p where "p \<in> set props" and "n = fst p"
      by auto
    then show "n \<in> set (alive_ai gs)"
      using proposed_lines_alive_ai [of p gs data] by (simp add: props_def)
  qed
  have fb: "set (map snd fills) \<subseteq> set FALLBACKS"
  proof
    fix l
    assume "l \<in> set (map snd fills)"
    then obtain j where j: "j < length fills" and l: "l = snd (fills ! j)"
      by (auto simp: in_set_conv_nth)
    then have "l = drawn_fallback g (r + j)"
      using t by simp
    then show "l \<in> set FALLBACKS"
      by (simp add: drawn_fallback_mem)
  qed
  have acc1: "stdout (transcript_entry p) = None" if p: "p \<in> set fixed" for p
  proof -
    obtain i where i: "i < length fixed" and pi: "p = fixed ! i"
      using p by (auto simp: in_set_conv_nth)
    have ip: "i < length props"
      using i len by simp
    have "fst (fixed ! i) = map fst fixed ! i"
      using i by simp
    also have "\<dots> = fst (props ! i)"
      using m ip by simp
    finally have n: "fst p = fst (props ! i)"
      using pi by simp
    have mem: "props ! i \<in> set (proposed_lines gs data)"
      using ip by (simp add: props_def)
    then have ai: "fst p \<in> set (alive_ai gs)"
      using proposed_lines_alive_ai [of "props ! i" gs data] n by simp
    have "snd p \<in> set FALLBACKS \<or>
        (\<exists>q\<in>set (proposed_lines gs data). fst q = fst p \<and> snd p = strip (snd q))"
    proof (cases "turned_down gs (props ! i)")
      case True
      then have "snd p = drawn_fallback g (length (filter (turned_down gs) (take i props)))"
        using s ip pi by simp
      then show ?thesis
        by (simp add: drawn_fallback_mem)
    next
      case False
      then have "snd p = strip (snd (props ! i))"
        using s ip pi by simp
      then show ?thesis
        using mem n by auto
    qed
    then have "stdout (transcript_entry (fst p, snd p)) = None"
      using prints_turnD [OF pr ai] by blast
    then show ?thesis by simp
  qed
  have acc2: "stdout (transcript_entry p) = None" if p: "p \<in> set fills" for p
  proof -
    have "fst p \<in> set (map fst fills)"
      using p by simp
    then have ai: "fst p \<in> set (alive_ai gs)"
      unfolding f by simp
    have "snd p \<in> set (map snd fills)"
      using p by simp
    then have "snd p \<in> set FALLBACKS"
      using fb by blast
    then have "stdout (transcript_entry (fst p, snd p)) = None"
      using prints_turnD [OF pr ai] by blast
    then show ?thesis by simp
  qed
  have "\<forall>p\<in>set (fixed @ fills). stdout (transcript_entry p) = None"
    using acc1 acc2 by auto
  then obtain gs' where rec: "record_pairs stdout (fixed @ fills) gs = Inr gs'"
    and h: "dialogue_history gs' = dialogue_history gs @ map transcript_entry (fixed @ fills)"
    and q: "players gs' = players gs"
    using record_pairs_prints [of "fixed @ fills" stdout gs] by blast
  have d: "day_discuss stdout gs data g = Inr (gs', \<lambda>i. g (i + r + length fills))"
    by (simp add: day_discuss_def it acc ens rec)
  have all: "set (map fst (fixed @ fills)) = set (alive_ai gs)"
    using turn_all_speak [OF sub f'] .
  have ge: "\<forall>n\<in>set (alive_ai gs). 1 \<le> count_list (map fst (fixed @ fills)) n"
  proof
    fix n
    assume "n \<in> set (alive_ai gs)"
    then have "n \<in> set (map fst (fixed @ fills))"
      using all by simp
    then have "count_list (map fst (fixed @ fills)) n \<noteq> 0"
      by (simp only: count_list_0_iff not_not)
    then show "1 \<le> count_list (map fst (fixed @ fills)) n"
      by arith
  qed
  have one: "distinct (alive_players gs) \<and> distinct (map fst props) \<longrightarrow>
      (\<forall>n\<in>set (alive_ai gs). count_list (map fst (fixed @ fills)) n = 1)"
  proof (intro impI ballI)
    fix n
    assume dd: "distinct (alive_players gs) \<and> distinct (map fst props)"
      and n: "n \<in> set (alive_ai gs)"
    have d1: "distinct (map fst fixed)"
      using dd m by simp
    have d2: "distinct (alive_ai gs)"
      using dd by (simp add: alive_ai_def)
    show "count_list (map fst (fixed @ fills)) n = 1"
      using turn_once [OF f' d1 d2 n] .
  qed
  have "props = proposed_lines gs data \<and> r = length (filter (turned_down gs) props) \<and>
     day_discuss stdout gs data g = Inr (gs', \<lambda>i. g (i + r + length fills)) \<and>
     players gs' = players gs \<and>
     dialogue_history gs' = dialogue_history gs @ map transcript_entry (fixed @ fills) \<and>
     map fst fixed = map fst props \<and>
     (\<forall>i<length props. snd (fixed ! i) =
        (if turned_down gs (props ! i)
         then drawn_fallback g (length (filter (turned_down gs) (take i props)))
         else strip (snd (props ! i)))) \<and>
     map fst fills = filter (\<lambda>n. n \<notin> set (map fst props)) (alive_ai gs) \<and>
     (\<forall>j<length fills. snd (fills ! j) = drawn_fallback g (r + j)) \<and>
     set (map snd fills) \<subseteq> set FALLBACKS \<and>
     (\<lambda>i. g (i + r + length fills)) = (\<lambda>i. g (i + r + length fills)) \<and>
     set (map fst (fixed @ fills)) = set (alive_ai gs) \<and>
     (\<forall>n\<in>set (alive_ai gs). 1 \<le> count_list (map fst (fixed @ fills)) n) \<and>
     (distinct (alive_players gs) \<and> distinct (map fst props) \<longrightarrow>
        (\<forall>n\<in>set (alive_ai gs). count_list (map fst (fixed @ fills)) n = 1))"
    using props_def r_def d q h m s f t fb all ge one by (intro conjI) (assumption | rule refl)+
  then show ?thesis
    by (intro exI)
qed

theorem day_discuss_all_speak_witness:
  "well_typed_answer sample_game single_lines \<and>
   prints_turn any_stdout sample_game single_lines \<and>
   distinct (alive_players sample_game) \<and>
   distinct (map fst (proposed_lines sample_game single_lines)) \<and>
   minsu \<in> set (alive_ai sample_game) \<and>
   (\<exists>gs' g' fixed fills.
      day_discuss any_stdout sample_game single_lines (\<lambda>_. 0) = Inr (gs', g') \<and>
      dialogue_history gs' = dialogue_history sample_game @ map transcript_entry (fixed @ fills) \<and>
      map fst fixed = [minsu] \<and>
      count_list (map fst (fixed @ fills)) minsu = 1)"
proof -
  have h1: "distinct (alive_players sample_game)"
    by (simp add: alive_players_sample_game names_def)
  have h2: "distinct (map fst (proposed_lines sample_game single_lines))"
    by (simp add: proposed_single_lines)
  obtain gs' g' fixed fills where
    a: "day_discuss any_stdout sample_game single_lines (\<lambda>_. 0) = Inr (gs', g')"
    and b: "dialogue_history gs' =
      dialogue_history sample_game @ map transcript_entry (fixed @ fills)"
    and c: "map fst fixed = map fst (proposed_lines sample_game single_lines)"
    and d: "distinct (alive_players sample_game) \<and>
       distinct (map fst (proposed_lines sample_game single_lines)) \<longrightarrow>
     (\<forall>n\<in>set (alive_ai sample_game). count_list (map fst (fixed @ fills)) n = 1)"
    using day_discuss_all_speak [OF well_typed_single_lines prints_any_stdout, of "\<lambda>_. 0"]
    by (elim exE conjE) (hypsubst, rule that, assumption+)
  have c': "map fst fixed = [minsu]"
    using c by (simp add: proposed_single_lines)
  have d': "count_list (map fst (fixed @ fills)) minsu = 1"
    using d h1 h2 minsu_alive_ai by blast
  have "day_discuss any_stdout sample_game single_lines (\<lambda>_. 0) = Inr (gs', g') \<and>
      dialogue_history gs' = dialogue_history sample_game @ map transcript_entry (fixed @ fills) \<and>
      map fst fixed = [minsu] \<and>
      count_list (map fst (fixed @ fills)) minsu = 1"
    using a b c' d' by (intro conjI)
  then have "\<exists>gs' g' fixed fills.
      day_discuss any_stdout sample_game single_lines (\<lambda>_. 0) = Inr (gs', g') \<and>
      dialogue_history gs' = dialogue_history sample_game @ map transcript_entry (fixed @ fills) \<and>
      map fst fixed = [minsu] \<and>
      count_list (map fst (fixed @ fills)) minsu = 1"
    by (intro exI)
  then show ?thesis
    using well_typed_single_lines prints_any_stdout h1 h2 minsu_alive_ai by (intro conjI)
qed

section \<open>The two most mentioned players\<close>

lemma keys_set_dict_set: "fst ` set (dict_set k v d) = insert k (fst ` set d)"
proof -
  have "fst ` set (dict_set k v d) = set (map fst (dict_set k v d))"
    by simp
  also have "\<dots> = set (if k \<in> fst ` set d then map fst d else map fst d @ [k])"
    by (simp only: keys_dict_set)
  also have "\<dots> = insert k (fst ` set d)"
    by auto
  finally show ?thesis .
qed

lemma keys_zero_counts_aux:
  "fst ` set (foldl (\<lambda>d n. dict_set n (0::int) d) acc ns) = fst ` set acc \<union> set ns"
proof (induction ns arbitrary: acc)
  case Nil
  then show ?case by simp
next
  case (Cons n ns)
  have "fst ` set (foldl (\<lambda>d n. dict_set n (0::int) d) (dict_set n 0 acc) ns) =
      insert n (fst ` set acc) \<union> set ns"
    unfolding Cons.IH keys_set_dict_set ..
  then show ?case
    by simp
qed

lemma keys_zero_counts: "fst ` set (zero_counts ns) = set ns"
  by (simp add: zero_counts_def keys_zero_counts_aux)

lemma map_of_zero_counts_aux:
  "map_of (foldl (\<lambda>d n. dict_set n (0::int) d) acc ns) k =
     (if k \<in> set ns then Some 0 else map_of acc k)"
  by (induction ns arbitrary: acc) (auto simp: map_of_dict_set)

lemma dict_get_zero_counts: "dict_get (zero_counts ns) k 0 = 0"
  by (simp add: dict_get_def zero_counts_def map_of_zero_counts_aux)

lemma mset_shuffle_from:
  "k \<le> length xs - 1 \<Longrightarrow> mset (fst (shuffle_from k xs g)) = mset xs"
proof (induction k arbitrary: xs g)
  case 0
  then show ?case by simp
next
  case (Suc k)
  let ?j = "g 0 mod (Suc k + 1)"
  let ?ys = "xs[Suc k := xs ! ?j, ?j := xs ! Suc k]"
  have i: "Suc k < length xs"
    using Suc.prems by simp
  have "?j < Suc k + 1"
    by simp
  then have j: "?j < length xs"
    using i by linarith
  have "mset ?ys = mset xs"
    using mset_swap [OF j i] .
  moreover have "k \<le> length ?ys - 1"
    using i by simp
  ultimately have "mset (fst (shuffle_from k ?ys (\<lambda>i. g (Suc i)))) = mset xs"
    using Suc.IH [of ?ys] by simp
  then show ?case
    by (simp add: randbelow_def)
qed

lemma mset_shuffle: "mset (fst (shuffle xs g)) = mset xs"
  by (simp add: shuffle_def mset_shuffle_from)

lemma mset_take_subset: "mset (take n xs) \<subseteq># mset xs"
proof -
  have "mset xs = mset (take n xs) + mset (drop n xs)"
    by (metis append_take_drop_id mset_append)
  then show ?thesis
    by simp
qed

lemma alive_players_discuss_game: "alive_players discuss_game = names"
  by (simp add: alive_players_def discuss_game_def sample_game_def comp_def)

lemma alive_ai_discuss_game: "alive_ai discuss_game = drop 1 names"
  by (simp add: alive_ai_def alive_players_discuss_game) (simp add: names_def HUMAN_def)

lemma mention_counts_discuss_game:
  "mention_counts_for_today discuss_game =
     Inr [(minsu, 1), (jiyeon, 3), (hyunwoo, 2), ([0xC218, 0xC544], 1), ([0xD558, 0xB9B0], 0),
          ([0xD0DC, 0xD6C8], 0)]"
  unfolding mention_counts_for_today_def alive_ai_def [symmetric] alive_ai_discuss_game
  by (simp add: discuss_game_def sample_game_def new_GameState_def slice_from_def names_def
      zero_counts_def count_name_in_line_def HUMAN_def dict_item_def str_count.simps
      minsu_def jiyeon_def hyunwoo_def)

lemma top_two_mentions_discuss_game:
  "top_two_mentions discuss_game (\<lambda>_. 0) = Inr ([jiyeon, hyunwoo], \<lambda>_. 0)"
  unfolding top_two_mentions_def alive_ai_def [symmetric] alive_ai_discuss_game
    mention_counts_discuss_game
  by (simp add: names_def dict_get_def minsu_def jiyeon_def hyunwoo_def)

lemma shuffle_from_reaches:
  "k < length xs \<Longrightarrow> length ys = length xs \<Longrightarrow>
     mset (take (Suc k) xs) = mset (take (Suc k) ys) \<Longrightarrow> drop (Suc k) xs = drop (Suc k) ys \<Longrightarrow>
     \<exists>g. fst (shuffle_from k xs g) = ys"
proof (induction k arbitrary: xs)
  case 0
  have "xs ! 0 = ys ! 0"
    using 0 by (simp add: take_Suc_conv_app_nth)
  then have "xs ! 0 # drop (Suc 0) xs = ys ! 0 # drop (Suc 0) ys"
    using 0 by simp
  moreover have "xs ! 0 # drop (Suc 0) xs = xs"
    using Cons_nth_drop_Suc [of 0 xs] 0 by simp
  moreover have "ys ! 0 # drop (Suc 0) ys = ys"
    using Cons_nth_drop_Suc [of 0 ys] 0 by simp
  ultimately have "xs = ys"
    by simp
  then show ?case by simp
next
  case (Suc k)
  let ?i = "Suc k"
  have iy: "?i < length ys"
    using Suc.prems by simp
  have "ys ! ?i \<in> set (take (Suc ?i) ys)"
    using iy by (simp add: take_Suc_conv_app_nth)
  then have "ys ! ?i \<in> set (take (Suc ?i) xs)"
    using Suc.prems(3) by (metis set_mset_mset)
  then obtain j where j: "j < Suc ?i" and jx: "j < length xs" and xj: "xs ! j = ys ! ?i"
    by (auto simp: in_set_conv_nth)
  define xs' where "xs' = xs[?i := xs ! j, j := xs ! ?i]"
  have len': "length xs' = length xs"
    by (simp add: xs'_def)
  have at_i: "xs' ! ?i = ys ! ?i"
    using Suc.prems(1) jx xj by (cases "j = ?i") (simp_all add: xs'_def)
  have "drop (Suc ?i) xs' = drop (Suc ?i) xs"
    using j by (simp add: xs'_def)
  then have rest: "drop ?i xs' = drop ?i ys"
    using at_i Suc.prems iy len'
    by (metis Cons_nth_drop_Suc)
  have "take (Suc ?i) xs' = (take (Suc ?i) xs)[?i := take (Suc ?i) xs ! j, j := take (Suc ?i) xs ! ?i]"
    using j by (simp add: xs'_def take_update_swap)
  then have "mset (take (Suc ?i) xs') = mset (take (Suc ?i) xs)"
    using mset_swap [of j "take (Suc ?i) xs" ?i] j Suc.prems(1) by simp
  then have "mset (take (Suc ?i) xs') = mset (take (Suc ?i) ys)"
    using Suc.prems(3) by simp
  moreover have "take (Suc ?i) xs' = take ?i xs' @ [xs' ! ?i]"
    using Suc.prems(1) len' by (intro take_Suc_conv_app_nth) simp
  moreover have "take (Suc ?i) ys = take ?i ys @ [ys ! ?i]"
    using iy by (rule take_Suc_conv_app_nth)
  ultimately have "mset (take ?i xs' @ [xs' ! ?i]) = mset (take ?i ys @ [ys ! ?i])"
    by (simp only:)
  then have front: "mset (take ?i xs') = mset (take ?i ys)"
    using at_i by simp
  have "k < length xs'" and "length ys = length xs'"
    using Suc.prems len' by simp_all
  then obtain g where g: "fst (shuffle_from k xs' g) = ys"
    using Suc.IH [of xs'] front rest by blast
  define h where "h = (\<lambda>n. case n of 0 \<Rightarrow> j | Suc m \<Rightarrow> g m)"
  have "randbelow (?i + 1) h = (j, g)"
    using j by (simp add: randbelow_def h_def)
  then have "fst (shuffle_from ?i xs h) = ys"
    using g by (simp add: xs'_def)
  then show ?case
    by blast
qed

lemma shuffle_reaches:
  assumes "mset ys = mset xs"
  shows "\<exists>g. fst (shuffle xs g) = ys"
proof (cases xs)
  case Nil
  then show ?thesis
    using assms by (simp add: shuffle_def)
next
  case (Cons x xs')
  have len: "length ys = length xs"
    using assms by (rule mset_eq_length)
  have "length xs - 1 < length xs"
    using Cons by simp
  moreover have "mset (take (Suc (length xs - 1)) xs) = mset (take (Suc (length xs - 1)) ys)"
    using assms len Cons by simp
  moreover have "drop (Suc (length xs - 1)) xs = drop (Suc (length xs - 1)) ys"
    using len Cons by simp
  ultimately show ?thesis
    unfolding shuffle_def using len by (intro shuffle_from_reaches)
qed

lemma str_count_positive:
  "sub \<noteq> [] \<Longrightarrow> 0 < str_count s sub \<longleftrightarrow> (\<exists>ps ss. s = ps @ sub @ ss)"
proof (induction s sub rule: str_count.induct)
  case (1 s sub)
  show ?case
  proof (cases "length s < length sub")
    case True
    then have "str_count s sub = 0"
      using 1(3) by (simp add: str_count.simps)
    moreover have "\<not> (\<exists>ps ss. s = ps @ sub @ ss)"
      using True by auto
    ultimately show ?thesis by simp
  next
    case long: False
    show ?thesis
    proof (cases "take (length sub) s = sub")
      case True
      then have "s = [] @ sub @ drop (length sub) s"
        by (metis append_Nil append_take_drop_id)
      moreover have "0 < str_count s sub"
        using True long 1(3) by (subst str_count.simps) simp
      ultimately show ?thesis by blast
    next
      case False
      have eq: "str_count s sub = str_count (tl s) sub"
        using False long 1(3) by (subst str_count.simps) simp
      have ih: "0 < str_count (tl s) sub \<longleftrightarrow> (\<exists>ps ss. tl s = ps @ sub @ ss)"
        using 1(2) [OF 1(3) long False 1(3)] .
      have "(\<exists>ps ss. s = ps @ sub @ ss) \<longleftrightarrow> (\<exists>ps ss. tl s = ps @ sub @ ss)"
      proof
        assume "\<exists>ps ss. s = ps @ sub @ ss"
        then obtain ps ss where s: "s = ps @ sub @ ss"
          by blast
        have "ps \<noteq> []"
          using s False by auto
        then obtain p ps' where "ps = p # ps'"
          by (cases ps) auto
        then have "tl s = ps' @ sub @ ss"
          using s by simp
        then show "\<exists>ps ss. tl s = ps @ sub @ ss"
          by blast
      next
        assume "\<exists>ps ss. tl s = ps @ sub @ ss"
        then obtain ps ss where t: "tl s = ps @ sub @ ss"
          by blast
        have "s \<noteq> []"
          using long 1(3) by auto
        then have "s = (hd s # ps) @ sub @ ss"
          using t by (metis append_Cons list.collapse)
        then show "\<exists>ps ss. s = ps @ sub @ ss"
          by blast
      qed
      then show ?thesis
        using eq ih by simp
    qed
  qed
qed

lemma str_count_repeat:
  "sub \<noteq> [] \<Longrightarrow> str_count (concat (replicate k sub)) sub = k"
proof (induction k)
  case 0
  then show ?case
    by (subst str_count.simps) simp
next
  case (Suc k)
  then show ?case
    by (subst str_count.simps) simp
qed


lemma dict_get_dict_set: "dict_get (dict_set n v d) k dflt = (if k = n then v else dict_get d k dflt)"
  by (simp add: dict_get_def map_of_dict_set)

lemma add_line_mentions_exact:
  "set ns \<subseteq> fst ` set counts \<Longrightarrow>
     \<exists>counts'. add_line_mentions ns line counts = Inr counts' \<and>
       fst ` set counts' = fst ` set counts \<and>
       (\<forall>k. dict_get counts' k 0 =
          dict_get counts k 0 + int (count_list ns k) * count_name_in_line k line)"
proof (induction ns arbitrary: counts)
  case Nil
  then show ?case by simp
next
  case (Cons n ns)
  have nk: "n \<in> fst ` set counts"
    using Cons.prems by simp
  then have "map_of counts n \<noteq> None"
    by (simp only: map_of_eq_None_iff not_not)
  then obtain c where c: "map_of counts n = Some c"
    by blast
  let ?counts1 = "dict_set n (c + count_name_in_line n line) counts"
  have k1: "fst ` set ?counts1 = fst ` set counts"
    unfolding keys_set_dict_set using nk by (rule insert_absorb)
  then have "set ns \<subseteq> fst ` set ?counts1"
    using Cons.prems by simp
  then obtain counts' where run: "add_line_mentions ns line ?counts1 = Inr counts'"
    and keys: "fst ` set counts' = fst ` set ?counts1"
    and val: "\<forall>k. dict_get counts' k 0 =
      dict_get ?counts1 k 0 + int (count_list ns k) * count_name_in_line k line"
    using Cons.IH by blast
  have "add_line_mentions (n # ns) line counts = Inr counts'"
    using c run by (simp add: dict_item_def)
  moreover have "dict_get counts' k 0 =
      dict_get counts k 0 + int (count_list (n # ns) k) * count_name_in_line k line" for k
  proof (cases "k = n")
    case True
    have "dict_get counts n 0 = c"
      using c by (simp add: dict_get_def)
    then show ?thesis
      using val True by (simp add: dict_get_dict_set algebra_simps)
  next
    case False
    then show ?thesis
      using val by (simp add: dict_get_dict_set)
  qed
  ultimately show ?case
    using keys k1 by simp
qed

lemma add_window_mentions_exact:
  "set ns \<subseteq> fst ` set counts \<Longrightarrow>
     \<exists>counts'. add_window_mentions window ns counts = Inr counts' \<and>
       fst ` set counts' = fst ` set counts \<and>
       (\<forall>k. dict_get counts' k 0 =
          dict_get counts k 0 +
          int (count_list ns k) * sum_list (map (count_name_in_line k) window))"
proof (induction window arbitrary: counts)
  case Nil
  then show ?case by simp
next
  case (Cons line window)
  obtain counts1 where a: "add_line_mentions ns line counts = Inr counts1"
    and k1: "fst ` set counts1 = fst ` set counts"
    and v1: "\<forall>k. dict_get counts1 k 0 =
      dict_get counts k 0 + int (count_list ns k) * count_name_in_line k line"
    using add_line_mentions_exact [OF Cons.prems] by blast
  have "set ns \<subseteq> fst ` set counts1"
    using Cons.prems k1 by simp
  then obtain counts' where b: "add_window_mentions window ns counts1 = Inr counts'"
    and k2: "fst ` set counts' = fst ` set counts1"
    and v2: "\<forall>k. dict_get counts' k 0 =
      dict_get counts1 k 0 +
      int (count_list ns k) * sum_list (map (count_name_in_line k) window)"
    using Cons.IH by blast
  have "add_window_mentions (line # window) ns counts = Inr counts'"
    using a b by simp
  moreover have "dict_get counts' k 0 =
      dict_get counts k 0 +
      int (count_list ns k) * sum_list (map (count_name_in_line k) (line # window))" for k
    using v1 v2 by (simp add: algebra_simps)
  ultimately show ?case
    using k1 k2 by simp
qed

lemma mention_counts_exact:
  "\<exists>counts. mention_counts_for_today gs = Inr counts \<and>
     fst ` set counts = set (alive_ai gs) \<and>
     (\<forall>n. dict_get counts n 0 = mentions_today gs n)"
proof -
  have "set (alive_ai gs) \<subseteq> fst ` set (zero_counts (alive_ai gs))"
    by (simp add: keys_zero_counts)
  then obtain counts where
    run: "add_window_mentions (day_window gs) (alive_ai gs) (zero_counts (alive_ai gs)) = Inr counts"
    and keys: "fst ` set counts = fst ` set (zero_counts (alive_ai gs))"
    and val: "\<forall>k. dict_get counts k 0 =
      dict_get (zero_counts (alive_ai gs)) k 0 +
      int (count_list (alive_ai gs) k) * sum_list (map (count_name_in_line k) (day_window gs))"
    using add_window_mentions_exact by blast
  have "mention_counts_for_today gs = Inr counts"
    using run by (simp add: mention_counts_for_today_def alive_ai_def day_window_def)
  moreover have "fst ` set counts = set (alive_ai gs)"
    using keys by (simp add: keys_zero_counts)
  moreover have "\<forall>n. dict_get counts n 0 = mentions_today gs n"
    using val by (simp add: dict_get_zero_counts mentions_today_def)
  ultimately show ?thesis
    by blast
qed

lemma count_name_in_line_positive:
  "0 < count_name_in_line n line \<longleftrightarrow> n \<noteq> [] \<and> (\<exists>ps ss. line = ps @ n @ ss)"
proof (cases "n = []")
  case True
  then show ?thesis
    by (simp add: count_name_in_line_def)
next
  case False
  then have "line \<noteq> []" if "line = ps @ n @ ss" for ps ss
    using that by auto
  then show ?thesis
    using False str_count_positive [OF False, of line]
    by (auto simp: count_name_in_line_def)
qed

lemma count_name_in_line_repeat:
  "n \<noteq> [] \<Longrightarrow> count_name_in_line n (concat (replicate k n)) = int k"
  using str_count_repeat [of n k] by (cases k) (simp_all add: count_name_in_line_def)


lemma mentions_today_positive:
  "0 < mentions_today gs n \<longleftrightarrow>
     n \<in> set (alive_ai gs) \<and> n \<noteq> [] \<and> (\<exists>line\<in>set (day_window gs). \<exists>ps ss. line = ps @ n @ ss)"
proof -
  have nonneg: "\<forall>line. 0 \<le> count_name_in_line n line"
    by (simp add: count_name_in_line_def)
  have "0 < sum_list (map (count_name_in_line n) ls) \<longleftrightarrow>
      (\<exists>line\<in>set ls. 0 < count_name_in_line n line)" for ls
  proof (induction ls)
    case Nil
    then show ?case by simp
  next
    case (Cons l ls)
    have "0 \<le> sum_list (map (count_name_in_line n) ls)"
      using nonneg by (intro sum_list_nonneg) auto
    then show ?case
      using Cons nonneg [rule_format, of l] by auto
  qed
  then have "0 < sum_list (map (count_name_in_line n) (day_window gs)) \<longleftrightarrow>
      n \<noteq> [] \<and> (\<exists>line\<in>set (day_window gs). \<exists>ps ss. line = ps @ n @ ss)"
    by (auto simp: count_name_in_line_positive)
  moreover have "0 < count_list (alive_ai gs) n \<longleftrightarrow> n \<in> set (alive_ai gs)"
    using count_list_0_iff [of "alive_ai gs" n] by auto
  moreover have "0 \<le> sum_list (map (count_name_in_line n) (day_window gs))"
    using nonneg by (intro sum_list_nonneg) auto
  ultimately show ?thesis
    unfolding mentions_today_def by (auto simp: zero_less_mult_iff)
qed

lemma shuffle_six_const:
  "fst (shuffle [a, b, c, d, e, f] (\<lambda>_. 0)) = [b, c, d, e, f, a]"
  by (simp add: shuffle_def randbelow_def)

lemma shuffle_six_ones:
  "fst (shuffle [a, b, c, d, e, f] (\<lambda>_. Suc 0)) = [a, c, d, e, f, b]"
  by (simp add: shuffle_def randbelow_def)

lemma alive_ai_quiet_game: "alive_ai quiet_game = drop 1 names"
  using alive_ai_discuss_game
  by (simp add: quiet_game_def alive_ai_def alive_players_def)

lemma mentions_quiet_game: "mentions_today quiet_game n = 0"
  by (simp add: mentions_today_def day_window_def quiet_game_def discuss_game_def slice_from_def)

lemma top_two_mentions_quiet_game:
  "map_sum id fst (top_two_mentions quiet_game (\<lambda>_. 0)) = Inr [jiyeon, hyunwoo]"
  "map_sum id fst (top_two_mentions quiet_game (\<lambda>_. 1)) = Inr [minsu, hyunwoo]"
proof -
  obtain counts where mc: "mention_counts_for_today quiet_game = Inr counts"
    and val: "\<forall>n. dict_get counts n 0 = mentions_today quiet_game n"
    using mention_counts_exact by blast
  have zero: "\<forall>n. dict_get counts n 0 = 0"
    using val by (simp add: mentions_quiet_game)
  have names6: "drop 1 names = [minsu, jiyeon, hyunwoo, [0xC218, 0xC544], [0xD558, 0xB9B0],
      [0xD0DC, 0xD6C8]]"
    by (simp add: names_def minsu_def jiyeon_def hyunwoo_def)
  show "map_sum id fst (top_two_mentions quiet_game (\<lambda>_. 0)) = Inr [jiyeon, hyunwoo]"
    unfolding top_two_mentions_def alive_ai_def [symmetric] alive_ai_quiet_game names6
    by (simp add: mc zero split_beta shuffle_six_const Let_def)
  show "map_sum id fst (top_two_mentions quiet_game (\<lambda>_. 1)) = Inr [minsu, hyunwoo]"
    unfolding top_two_mentions_def alive_ai_def [symmetric] alive_ai_quiet_game names6
    by (simp add: mc zero split_beta shuffle_six_ones Let_def)
qed

text \<open>
  C6: with at least two living players other than the human, \<open>top_two_mentions\<close>
  raises nothing and returns two names, and no name more often than it occurs among
  those players. The counts it ranks by are those of \<open>mention_counts_for_today\<close>, which
  has an entry for each of those players and no other, the count of a name being the
  number of its occurrences in the lines of the day window, the transcript from the
  start index of the day on (added once for each living player of that name): it is
  positive exactly for the names that occur in a line of the window, and a line
  that repeats a name \<open>k\<close> times counts \<open>k\<close>. With exactly two players the result is
  the list of them, unchanged, and nothing is drawn. With more, \<open>ranked\<close> is the players
  in the order of descending count and then ascending name, and \<open>pre\<close> the first two
  of those with a positive count. With two such players the result is \<open>pre\<close> and nothing
  is drawn. With fewer, and so with an empty day window, where every count is zero,
  the result is \<open>pre\<close> followed by the first names of the shuffle, by the draws of the
  random source, of the players without a positive count; the random source is
  returned advanced by the draws of the shuffle, and every choice of the missing
  names among those players, each at most as often as it occurs there, in every
  order, is the result for some random source. (That each of them is equally likely
  is a matter of the random source, which the model takes as given.)
\<close>

theorem top_two_mentions_two_names:
  assumes "2 \<le> length (alive_ai gs)"
  shows "\<exists>top2 g' counts ranked pre pool.
     top_two_mentions gs g = Inr (top2, g') \<and>
     length top2 = 2 \<and>
     mset top2 \<subseteq># mset (alive_ai gs) \<and>
     mention_counts_for_today gs = Inr counts \<and>
     fst ` set counts = set (alive_ai gs) \<and>
     (\<forall>n. dict_get counts n 0 = mentions_today gs n) \<and>
     (\<forall>n. 0 < mentions_today gs n \<longleftrightarrow>
        n \<in> set (alive_ai gs) \<and> n \<noteq> [] \<and>
        (\<exists>line\<in>set (day_window gs). \<exists>ps ss. line = ps @ n @ ss)) \<and>
     (\<forall>n k. n \<noteq> [] \<longrightarrow> count_name_in_line n (concat (replicate k n)) = int k) \<and>
     (0 \<le> dialogue_round_start_idx gs \<longrightarrow>
        day_window gs = drop (nat (dialogue_round_start_idx gs)) (dialogue_history gs)) \<and>
     (length (alive_ai gs) \<le> 2 \<longrightarrow> top2 = alive_ai gs \<and> g' = g) \<and>
     (2 < length (alive_ai gs) \<longrightarrow>
        mset ranked = mset (alive_ai gs) \<and>
        sorted (map (\<lambda>n. (- mentions_today gs n, n)) ranked) \<and>
        pre = take 2 (filter (\<lambda>n. 0 < mentions_today gs n) ranked) \<and>
        pool = filter (\<lambda>n. \<not> 0 < mentions_today gs n) (alive_ai gs) \<and>
        (length pre = 2 \<longrightarrow> top2 = pre \<and> g' = g) \<and>
        (length pre < 2 \<longrightarrow>
           top2 = pre @ take (2 - length pre) (fst (shuffle pool g)) \<and>
           g' = snd (shuffle pool g) \<and>
           (\<forall>fill. length fill = 2 - length pre \<and> mset fill \<subseteq># mset pool \<longrightarrow>
              (\<exists>h h'. top_two_mentions gs h = Inr (pre @ fill, h')))))"
proof -
  obtain counts where mc: "mention_counts_for_today gs = Inr counts"
    and keys: "fst ` set counts = set (alive_ai gs)"
    and val: "\<forall>n. dict_get counts n 0 = mentions_today gs n"
    using mention_counts_exact by blast
  define P where "P = (\<lambda>n. 0 < mentions_today gs n)"
  define ranked where "ranked = sort_key (\<lambda>x. (- mentions_today gs x, x)) (alive_ai gs)"
  define pre where "pre = take 2 (filter P ranked)"
  define pool where "pool = filter (\<lambda>n. \<not> P n) (alive_ai gs)"
  have facts: "(\<forall>n. 0 < mentions_today gs n \<longleftrightarrow>
        n \<in> set (alive_ai gs) \<and> n \<noteq> [] \<and>
        (\<exists>line\<in>set (day_window gs). \<exists>ps ss. line = ps @ n @ ss)) \<and>
     (\<forall>n k. n \<noteq> [] \<longrightarrow> count_name_in_line n (concat (replicate k n)) = int k) \<and>
     (0 \<le> dialogue_round_start_idx gs \<longrightarrow>
        day_window gs = drop (nat (dialogue_round_start_idx gs)) (dialogue_history gs))"
    by (simp add: mentions_today_positive count_name_in_line_repeat day_window_def slice_from_def)
  show ?thesis
  proof (cases "length (alive_ai gs) \<le> 2")
    case True
    have run: "top_two_mentions gs g = Inr (alive_ai gs, g)"
      using True by (simp add: top_two_mentions_def alive_ai_def)
    have len: "length (alive_ai gs) = 2"
      using True assms by simp
    show ?thesis
      apply (rule exI [of _ "alive_ai gs"], rule exI [of _ g], rule exI [of _ counts])
      apply (rule exI [of _ ranked], rule exI [of _ pre], rule exI [of _ pool])
      using run len mc keys val facts True by simp
  next
    case False
    then have big: "2 < length (alive_ai gs)"
      by simp
    have perm: "mset ranked = mset (alive_ai gs)"
      by (simp add: ranked_def)
    have srt: "sorted (map (\<lambda>n. (- mentions_today gs n, n)) ranked)"
      by (simp add: ranked_def)
    have pre_sub: "mset pre \<subseteq># mset (filter P (alive_ai gs))"
    proof -
      have "mset pre \<subseteq># mset (filter P ranked)"
        unfolding pre_def by (rule mset_take_subset)
      also have "mset (filter P ranked) = mset (filter P (alive_ai gs))"
        using perm by simp
      finally show ?thesis .
    qed
    have pool_code: "filter (\<lambda>n. n \<notin> set pre) (alive_ai gs) = pool"
      and room: "2 - length pre \<le> length pool" if short: "length pre < 2"
    proof -
      have "length (filter P ranked) < 2"
        using short unfolding pre_def by simp
      then have pre_all: "pre = filter P ranked"
        unfolding pre_def by simp
      then have "set pre = {n \<in> set (alive_ai gs). P n}"
        using perm by (metis set_filter set_mset_mset)
      then show eq: "filter (\<lambda>n. n \<notin> set pre) (alive_ai gs) = pool"
        unfolding pool_def by (intro filter_cong) auto
      have "length pre = length (filter P (alive_ai gs))"
        using pre_all perm by (metis mset_filter size_mset)
      moreover have "length (filter P (alive_ai gs)) + length pool = length (alive_ai gs)"
        unfolding pool_def by (rule sum_length_filter_compl)
      ultimately show "2 - length pre \<le> length pool"
        using big by linarith
    qed
    have run: "top_two_mentions gs h =
        Inr (if length pre < 2 then pre @ take (2 - length pre) (fst (shuffle pool h)) else pre,
             if length pre < 2 then snd (shuffle pool h) else h)" for h
    proof (cases "length pre < 2")
      case True
      then show ?thesis
        using False mc val pool_code [OF True]
        by (simp add: top_two_mentions_def alive_ai_def [symmetric] Let_def pre_def ranked_def
            P_def split_beta)
    next
      case False
      then show ?thesis
        using \<open>\<not> length (alive_ai gs) \<le> 2\<close> mc val
        by (simp add: top_two_mentions_def alive_ai_def [symmetric] Let_def pre_def ranked_def
            P_def split_beta)
    qed
    define top2 where
      "top2 = (if length pre < 2 then pre @ take (2 - length pre) (fst (shuffle pool g)) else pre)"
    define g' where "g' = (if length pre < 2 then snd (shuffle pool g) else g)"
    have pre_le: "length pre \<le> 2"
      unfolding pre_def by simp
    have len2: "length top2 = 2"
    proof (cases "length pre < 2")
      case True
      have "length (fst (shuffle pool g)) = length pool"
        using mset_shuffle [of pool g] by (rule mset_eq_length)
      then show ?thesis
        using True room [OF True] by (simp add: top2_def)
    next
      case False
      then show ?thesis
        using pre_le by (simp add: top2_def)
    qed
    have sub: "mset top2 \<subseteq># mset (alive_ai gs)"
    proof -
      have "mset (take (2 - length pre) (fst (shuffle pool g))) \<subseteq># mset pool"
        using mset_take_subset [of "2 - length pre" "fst (shuffle pool g)"]
        by (simp only: mset_shuffle)
      then have "mset pre + mset (take (2 - length pre) (fst (shuffle pool g))) \<subseteq>#
          mset (filter P (alive_ai gs)) + mset pool"
        using pre_sub by (rule subset_mset.add_mono [rotated])
      also have "\<dots> = mset (alive_ai gs)"
        by (simp add: pool_def)
      finally have a: "mset (pre @ take (2 - length pre) (fst (shuffle pool g))) \<subseteq>#
          mset (alive_ai gs)"
        by simp
      have "mset pre \<subseteq># mset (alive_ai gs)"
        using pre_sub by (rule subset_mset.order_trans) simp
      then show ?thesis
        using a by (simp add: top2_def)
    qed
    have reach: "\<exists>h h'. top_two_mentions gs h = Inr (pre @ fill, h')"
      if short: "length pre < 2" and fill: "length fill = 2 - length pre \<and> mset fill \<subseteq># mset pool"
      for fill
    proof -
      obtain rest where "mset rest = mset pool - mset fill"
        using ex_mset by blast
      then have "mset (fill @ rest) = mset pool"
        using fill by simp
      then obtain h where "fst (shuffle pool h) = fill @ rest"
        using shuffle_reaches by blast
      then have "top_two_mentions gs h = Inr (pre @ fill, snd (shuffle pool h))"
        using run [of h] short fill by simp
      then show ?thesis
        by blast
    qed
    have branch: "(length pre = 2 \<longrightarrow> top2 = pre \<and> g' = g) \<and>
        (length pre < 2 \<longrightarrow>
           top2 = pre @ take (2 - length pre) (fst (shuffle pool g)) \<and>
           g' = snd (shuffle pool g) \<and>
           (\<forall>fill. length fill = 2 - length pre \<and> mset fill \<subseteq># mset pool \<longrightarrow>
              (\<exists>h h'. top_two_mentions gs h = Inr (pre @ fill, h'))))"
      using reach by (simp add: top2_def g'_def)
    have defs: "pre = take 2 (filter (\<lambda>n. 0 < mentions_today gs n) ranked) \<and>
        pool = filter (\<lambda>n. \<not> 0 < mentions_today gs n) (alive_ai gs)"
      by (simp add: pre_def pool_def P_def)
    have run_g: "top_two_mentions gs g = Inr (top2, g')"
      using run [of g] by (simp add: top2_def g'_def)
    show ?thesis
      apply (rule exI [of _ top2], rule exI [of _ g'], rule exI [of _ counts])
      apply (rule exI [of _ ranked], rule exI [of _ pre], rule exI [of _ pool])
      using run_g len2 sub mc keys val facts False perm srt defs branch by simp
  qed
qed

theorem top_two_mentions_two_names_witness:
  "2 \<le> length (alive_ai quiet_game) \<and>
   map_sum id fst (top_two_mentions quiet_game (\<lambda>_. 0)) = Inr [jiyeon, hyunwoo] \<and>
   map_sum id fst (top_two_mentions quiet_game (\<lambda>_. 1)) = Inr [minsu, hyunwoo] \<and>
   top_two_mentions discuss_game (\<lambda>_. 0) = Inr ([jiyeon, hyunwoo], \<lambda>_. 0) \<and>
   (\<exists>top2 g'. top_two_mentions quiet_game (\<lambda>_. 1) = Inr (top2, g') \<and> length top2 = 2 \<and>
      mset top2 \<subseteq># mset (alive_ai quiet_game))"
proof -
  have h: "2 \<le> length (alive_ai quiet_game)"
    by (simp add: alive_ai_quiet_game names_def)
  obtain top2 g' where "top_two_mentions quiet_game (\<lambda>_. 1) = Inr (top2, g')"
    and "length top2 = 2" and "mset top2 \<subseteq># mset (alive_ai quiet_game)"
    using top_two_mentions_two_names [OF h, of "\<lambda>_. 1"]
    by (elim exE conjE) (rule that, assumption+)
  then have "\<exists>top2 g'. top_two_mentions quiet_game (\<lambda>_. 1) = Inr (top2, g') \<and> length top2 = 2 \<and>
      mset top2 \<subseteq># mset (alive_ai quiet_game)"
    by (intro exI conjI)
  then show ?thesis
    using h top_two_mentions_quiet_game top_two_mentions_discuss_game
    by (intro conjI)
qed

section \<open>Sanitizing\<close>

lemma decode1: "b < 0x80 \<Longrightarrow> utf8_decode (b # rest) = b # utf8_decode rest"
  by simp

lemma decode2:
  "0xC2 \<le> b \<Longrightarrow> b < 0xE0 \<Longrightarrow> is_cont b1 \<Longrightarrow>
     utf8_decode (b # b1 # rest) = ((b - 0xC0) * 64 + (b1 - 0x80)) # utf8_decode rest"
  by simp

lemma decode3:
  "0xE0 \<le> b \<Longrightarrow> b < 0xF0 \<Longrightarrow> second_ok b b1 \<Longrightarrow> is_cont b2 \<Longrightarrow>
     utf8_decode (b # b1 # b2 # rest) =
       ((b - 0xE0) * 4096 + (b1 - 0x80) * 64 + (b2 - 0x80)) # utf8_decode rest"
  by simp

lemma decode4:
  "0xF0 \<le> b \<Longrightarrow> b < 0xF5 \<Longrightarrow> second_ok b b1 \<Longrightarrow> is_cont b2 \<Longrightarrow> is_cont b3 \<Longrightarrow>
     utf8_decode (b # b1 # b2 # b3 # rest) =
       ((b - 0xF0) * 262144 + (b1 - 0x80) * 4096 + (b2 - 0x80) * 64 + (b3 - 0x80))
       # utf8_decode rest"
  by simp


lemma decode_encode_1:
  assumes "c < 0x80"
  shows "utf8_decode (utf8_encode_cp c @ rest) = c # utf8_decode rest"
  using assms by (simp add: utf8_encode_cp_def)

lemma decode_encode_2:
  assumes "0x80 \<le> c" and "c < 0x800"
  shows "utf8_decode (utf8_encode_cp c @ rest) = c # utf8_decode rest"
proof -
  define q where "q = c div 64"
  define r where "r = c mod 64"
  have c: "c = 64 * q + r" and r: "r < 64"
    by (simp_all add: q_def r_def)
  have enc: "utf8_encode_cp c = [0xC0 + q, 0x80 + r]"
    using assms by (simp add: utf8_encode_cp_def q_def r_def)
  have b0: "0xC2 \<le> 0xC0 + q" "0xC0 + q < 0xE0"
    using assms c r by arith+
  have b1: "is_cont (0x80 + r)"
    using r by (simp add: is_cont_def)
  have "(0xC0 + q - 0xC0) * 64 + (0x80 + r - 0x80) = c"
    using c by simp
  then show ?thesis
    unfolding enc using decode2 [OF b0 b1, of rest] by simp
qed

lemma decode_encode_3:
  assumes "0x800 \<le> c" and "c < 0x10000" and "\<not> (0xD800 \<le> c \<and> c \<le> 0xDFFF)"
  shows "utf8_decode (utf8_encode_cp c @ rest) = c # utf8_decode rest"
proof -
  define a where "a = c div 64"
  define r where "r = c mod 64"
  define q where "q = a div 64"
  define m where "m = a mod 64"
  have c: "c = 64 * a + r" and r: "r < 64"
    by (simp_all add: a_def r_def)
  have a: "a = 64 * q + m" and m: "m < 64"
    by (simp_all add: q_def m_def)
  have "c div 4096 = q"
    unfolding q_def a_def by (simp add: div_mult2_eq [symmetric])
  then have enc: "utf8_encode_cp c = [0xE0 + q, 0x80 + m, 0x80 + r]"
    using assms by (simp add: utf8_encode_cp_def a_def r_def m_def)
  have b0: "0xE0 \<le> 0xE0 + q" "0xE0 + q < 0xF0"
    using assms c a r m by arith+
  have "q = 0 \<longrightarrow> 32 \<le> m" and "q = 13 \<longrightarrow> m < 32"
    using assms c a r m by arith+
  then have b1: "second_ok (0xE0 + q) (0x80 + m)"
    using m b0 by (auto simp: second_ok_def is_cont_def)
  have b2: "is_cont (0x80 + r)"
    using r by (simp add: is_cont_def)
  have "(0xE0 + q - 0xE0) * 4096 + (0x80 + m - 0x80) * 64 + (0x80 + r - 0x80) = c"
    using c a by simp
  then show ?thesis
    unfolding enc using decode3 [OF b0 b1 b2, of rest] by simp
qed

lemma decode_encode_4:
  assumes "0x10000 \<le> c" and "c < 0x110000"
  shows "utf8_decode (utf8_encode_cp c @ rest) = c # utf8_decode rest"
proof -
  define a where "a = c div 64"
  define r where "r = c mod 64"
  define b where "b = a div 64"
  define m where "m = a mod 64"
  define q where "q = b div 64"
  define n where "n = b mod 64"
  have c: "c = 64 * a + r" and r: "r < 64"
    by (simp_all add: a_def r_def)
  have a: "a = 64 * b + m" and m: "m < 64"
    by (simp_all add: b_def m_def)
  have b: "b = 64 * q + n" and n: "n < 64"
    by (simp_all add: q_def n_def)
  have d1: "c div 4096 = b"
    unfolding b_def a_def by (simp add: div_mult2_eq [symmetric])
  have d2: "c div 262144 = q"
    unfolding q_def b_def a_def by (simp add: div_mult2_eq [symmetric])
  have enc: "utf8_encode_cp c = [0xF0 + q, 0x80 + n, 0x80 + m, 0x80 + r]"
    using assms d1 d2 by (simp add: utf8_encode_cp_def a_def r_def m_def n_def)
  have b0: "0xF0 \<le> 0xF0 + q" "0xF0 + q < 0xF5"
    using assms c a b r m n by arith+
  have "q = 0 \<longrightarrow> 16 \<le> n" and "q = 4 \<longrightarrow> n < 16"
    using assms c a b r m n by arith+
  then have b1: "second_ok (0xF0 + q) (0x80 + n)"
    using n b0 by (auto simp: second_ok_def is_cont_def)
  have b2: "is_cont (0x80 + m)" and b3: "is_cont (0x80 + r)"
    using m r by (simp_all add: is_cont_def)
  have "(0xF0 + q - 0xF0) * 262144 + (0x80 + n - 0x80) * 4096 + (0x80 + m - 0x80) * 64
      + (0x80 + r - 0x80) = c"
    using c a b by simp
  then show ?thesis
    unfolding enc using decode4 [OF b0 b1 b2 b3, of rest] by simp
qed


lemma decode_encode_cp:
  "utf8_decode (utf8_encode_cp c @ rest) =
     (if c < 0x110000 \<and> \<not> (0xD800 \<le> c \<and> c \<le> 0xDFFF) then c # utf8_decode rest
      else utf8_decode rest)"
proof -
  consider (one) "c < 0x80" | (two) "0x80 \<le> c" "c < 0x800"
    | (three) "0x800 \<le> c" "c < 0x10000" "\<not> (0xD800 \<le> c \<and> c \<le> 0xDFFF)"
    | (four) "0x10000 \<le> c" "c < 0x110000"
    | (none) "(0xD800 \<le> c \<and> c \<le> 0xDFFF) \<or> 0x110000 \<le> c"
    by linarith
  then show ?thesis
  proof cases
    case one
    then show ?thesis
      using decode_encode_1 [of c rest] by simp
  next
    case two
    then show ?thesis
      using decode_encode_2 [of c rest] by simp
  next
    case three
    then show ?thesis
      using decode_encode_3 [of c rest] by simp
  next
    case four
    then show ?thesis
      using decode_encode_4 [of c rest] by simp
  next
    case none
    then have "utf8_encode_cp c = []"
      by (auto simp: utf8_encode_cp_def)
    then show ?thesis
      using none by auto
  qed
qed

lemma clean_str_filter:
  "clean_str s = filter (\<lambda>c. c < 0x110000 \<and> \<not> (0xD800 \<le> c \<and> c \<le> 0xDFFF)) s"
  unfolding clean_str_def utf8_encode_def
  by (induction s) (simp_all only: list.map concat.simps decode_encode_cp filter.simps
      utf8_decode.simps(1) split: if_splits)












text \<open>
  An example: a lone surrogate is dropped from a key and from a string in a list, and
  the two keys that become equal share one entry with the later value.
\<close>

lemma sanitize_example:
  "sanitize (PDict [(PStr [0x41, 0xD800], POther (1::int)),
                    (PStr [0x41], PList [PStr [0xDC00, 0xB2F9], PNone])]) =
   PDict [(PStr [0x41], PList [PStr [0xB2F9], PNone])]"
  by (simp add: clean_str_filter dict_of_items_def)


end
